theory Spec2Isabelle
  imports Main "HOL-Library.List_Lexorder"
begin

chapter \<open>The program\<close>

section \<open>Python strings\<close>

text \<open>
  A Python \<open>str\<close> is a sequence of Unicode code points, and \<open>len\<close>, slicing and comparison
  work on code points. Isabelle's \<open>char\<close> has 8 bits only, so a string is modelled as a list
  of code points (natural numbers); \<open>ascii\<close> embeds an ASCII literal. With
  \<open>HOL-Library.List_Lexorder\<close> the order on such lists is the lexicographic one, which is
  Python's order on \<open>str\<close>.
\<close>

type_synonym str = "nat list"

definition ascii :: "string \<Rightarrow> str" where
  "ascii s = map of_char s"

text \<open>
  \<open>str.isspace\<close>, the class stripped by \<open>str.strip()\<close> and matched by \<open>\s\<close> in a \<open>str\<close>
  pattern of \<open>re\<close>: the 29 white-space code points of the Unicode database.
\<close>

definition isspace :: "nat \<Rightarrow> bool" where
  "isspace c \<longleftrightarrow>
     (9 \<le> c \<and> c \<le> 13) \<or> (28 \<le> c \<and> c \<le> 32) \<or> c = 133 \<or> c = 160 \<or> c = 5760 \<or>
     (8192 \<le> c \<and> c \<le> 8202) \<or> c = 8232 \<or> c = 8233 \<or> c = 8239 \<or> c = 8287 \<or> c = 12288"

definition lstrip :: "str \<Rightarrow> str" where
  "lstrip s = dropWhile isspace s"

definition rstrip :: "str \<Rightarrow> str" where
  "rstrip s = rev (dropWhile isspace (rev s))"

definition strip :: "str \<Rightarrow> str" where
  "strip s = rstrip (lstrip s)"

definition startswith :: "str \<Rightarrow> str \<Rightarrow> bool" where
  "startswith s p \<longleftrightarrow> take (length p) s = p"

definition endswith :: "str \<Rightarrow> str \<Rightarrow> bool" where
  "endswith s p \<longleftrightarrow> length p \<le> length s \<and> drop (length s - length p) s = p"

fun join :: "str \<Rightarrow> str list \<Rightarrow> str" where
  "join sep [] = []"
| "join sep [x] = x"
| "join sep (x # y # ys) = x @ sep @ join sep (y # ys)"

subsection \<open>Integers and text\<close>

text \<open>\<open>str(n)\<close> for an integer: the decimal digits, most significant first.\<close>

fun dec :: "nat \<Rightarrow> str" where
  "dec n = (if n < 10 then [48 + n] else dec (n div 10) @ [48 + n mod 10])"

declare dec.simps [simp del]

definition str_int :: "int \<Rightarrow> str" where
  "str_int i = (if i < 0 then 45 # dec (nat (- i)) else dec (nat i))"

text \<open>The format \<open>{i:02d}\<close> on a natural number: at least two digits, padded with zeros.\<close>

definition fmt_02d :: "nat \<Rightarrow> str" where
  "fmt_02d i = (if i < 10 then 48 # dec i else dec i)"

text \<open>
  The decimal digits (Unicode category Nd) that \<open>int()\<close> accepts, as the first code points of
  the blocks of ten of Unicode 14.0 (the database of CPython 3.11); the value of a digit is
  its offset in its block.
\<close>

definition decimal_blocks :: "nat list" where
  "decimal_blocks =
    [48, 1632, 1776, 1984, 2406, 2534, 2662, 2790, 2918, 3046, 3174, 3302, 3430, 3558, 3664,
     3792, 3872, 4160, 4240, 6112, 6160, 6470, 6608, 6784, 6800, 6992, 7088, 7232, 7248, 42528,
     43216, 43264, 43472, 43504, 43600, 44016, 65296, 66720, 68912, 69734, 69872, 69942, 70096,
     70384, 70736, 70864, 71248, 71360, 71472, 71904, 72016, 72784, 73040, 73120, 92768, 92864,
     93008, 120782, 120792, 120802, 120812, 120822, 123200, 123632, 125264, 130032]"

definition decimal_value :: "nat \<Rightarrow> nat option" where
  "decimal_value c =
     (case filter (\<lambda>a. a \<le> c \<and> c < a + 10) decimal_blocks of
        [] \<Rightarrow> None
      | a # _ \<Rightarrow> Some (c - a))"

text \<open>
  The further code points for which \<open>str.isdigit\<close> holds (superscripts, circled digits and
  the like): \<open>isdigit\<close> accepts them, \<open>int()\<close> does not.
\<close>

definition digit_ranges :: "(nat \<times> nat) list" where
  "digit_ranges =
    [(178, 179), (185, 185), (4969, 4977), (6618, 6618), (8304, 8304), (8308, 8313),
     (8320, 8329), (9312, 9320), (9332, 9340), (9352, 9360), (9450, 9450), (9461, 9469),
     (9471, 9471), (10102, 10110), (10112, 10120), (10122, 10130), (68160, 68163),
     (69216, 69224), (69714, 69722), (127232, 127242)]"

definition isdigit_char :: "nat \<Rightarrow> bool" where
  "isdigit_char c \<longleftrightarrow> decimal_value c \<noteq> None \<or> (\<exists>(a, b) \<in> set digit_ranges. a \<le> c \<and> c \<le> b)"

definition isdigit :: "str \<Rightarrow> bool" where
  "isdigit s \<longleftrightarrow> s \<noteq> [] \<and> list_all isdigit_char s"

text \<open>
  \<open>int(s)\<close> on a string, base 10, as CPython reads it: white space around the literal is
  skipped, where white space means the ASCII characters tab to carriage return and space, and
  the white-space code points above U+007F; the separators U+001C to U+001F, which
  \<open>str.strip()\<close> removes, are not skipped. Then an optional sign, and digits with single
  underscores between them. A literal of more than 4300 digits is refused (the interpreter's
  default limit). \<open>None\<close> stands for the \<open>ValueError\<close>.
\<close>

definition int_space :: "nat \<Rightarrow> bool" where
  "int_space c \<longleftrightarrow> (9 \<le> c \<and> c \<le> 13) \<or> c = 32 \<or> (128 \<le> c \<and> isspace c)"

fun single_underscores :: "str \<Rightarrow> bool" where
  "single_underscores (a # b # cs) \<longleftrightarrow> \<not> (a = 95 \<and> b = 95) \<and> single_underscores (b # cs)"
| "single_underscores cs \<longleftrightarrow> True"

definition digits_ok :: "str \<Rightarrow> bool" where
  "digits_ok b \<longleftrightarrow> b \<noteq> [] \<and> hd b \<noteq> 95 \<and> last b \<noteq> 95 \<and> single_underscores b"

definition digits_value :: "str \<Rightarrow> nat" where
  "digits_value b = foldl (\<lambda>acc c. case decimal_value c of Some d \<Rightarrow> 10 * acc + d | None \<Rightarrow> acc) 0 b"

definition int_max_str_digits :: nat where
  "int_max_str_digits = 4300"

definition py_int :: "str \<Rightarrow> int option" where
  "py_int s =
     (let t = dropWhile int_space s;
          neg = (t \<noteq> [] \<and> hd t = 45);
          t1 = (if t \<noteq> [] \<and> (hd t = 45 \<or> hd t = 43) then tl t else t);
          body = takeWhile (\<lambda>c. decimal_value c \<noteq> None \<or> c = 95) t1;
          rest = dropWhile (\<lambda>c. decimal_value c \<noteq> None \<or> c = 95) t1
      in if digits_ok body \<and> list_all int_space rest
            \<and> length (filter (\<lambda>c. c \<noteq> 95) body) \<le> int_max_str_digits
         then Some (if neg then - int (digits_value body) else int (digits_value body))
         else None)"

section \<open>Values, errors, records\<close>

text \<open>
  What \<open>json.loads\<close> and \<open>requests\<close>' \<open>r.json()\<close> return: \<open>None\<close>, booleans, integers,
  strings, lists and dicts with string keys. A dict is an association list in insertion order
  with distinct keys. Floating-point numbers are outside the model.
\<close>

datatype json =
    JNull
  | JBool bool
  | JInt int
  | JStr str
  | JList "json list"
  | JObj "(str \<times> json) list"

type_synonym row = "(str \<times> json) list"

text \<open>Exceptions are modelled by their class; their messages are left out.\<close>

datatype error = RuntimeError | ValueError | AttributeError | RequestError

text \<open>\<open>d.get(k, default)\<close>.\<close>

definition dict_get :: "('k \<times> 'v) list \<Rightarrow> 'k \<Rightarrow> 'v \<Rightarrow> 'v" where
  "dict_get d k dflt = (case map_of d k of None \<Rightarrow> dflt | Some v \<Rightarrow> v)"

text \<open>\<open>d[k] = v\<close>: a new key goes to the end, a known key keeps its place.\<close>

fun dict_set :: "'k \<Rightarrow> 'v \<Rightarrow> ('k \<times> 'v) list \<Rightarrow> ('k \<times> 'v) list" where
  "dict_set k v [] = [(k, v)]"
| "dict_set k v (p # ps) = (if fst p = k then (k, v) # ps else p # dict_set k v ps)"

text \<open>Truth value of a value, as \<open>if v\<close> and \<open>v or d\<close> take it.\<close>

fun truthy :: "json \<Rightarrow> bool" where
  "truthy JNull = False"
| "truthy (JBool b) = b"
| "truthy (JInt i) = (i \<noteq> 0)"
| "truthy (JStr s) = (s \<noteq> [])"
| "truthy (JList xs) = (xs \<noteq> [])"
| "truthy (JObj kvs) = (kvs \<noteq> [])"

text \<open>
  \<open>str(v)\<close>: a string is itself, any other value is printed by \<open>repr\<close>. Inside a list or a
  dict a string is quoted and escaped; the escapes are those of CPython for the code points up
  to U+00FF (above, \<open>repr\<close> consults the Unicode database for printability, which is not
  modelled: the code point is copied).
\<close>

definition hex_digit :: "nat \<Rightarrow> nat" where
  "hex_digit d = (if d < 10 then 48 + d else 87 + d)"

definition repr_char :: "nat \<Rightarrow> nat \<Rightarrow> str" where
  "repr_char q c =
     (if c = q \<or> c = 92 then [92, c]
      else if c = 9 then [92, 116]
      else if c = 10 then [92, 110]
      else if c = 13 then [92, 114]
      else if c < 32 \<or> c = 127 \<or> (128 \<le> c \<and> c \<le> 160) \<or> c = 173
        then [92, 120, hex_digit (c div 16), hex_digit (c mod 16)]
      else [c])"

definition repr_str :: "str \<Rightarrow> str" where
  "repr_str s =
     (let q = (if 39 \<in> set s \<and> 34 \<notin> set s then 34 else 39)
      in q # concat (map (repr_char q) s) @ [q])"

fun py_repr :: "json \<Rightarrow> str" where
  "py_repr JNull = ascii ''None''"
| "py_repr (JBool b) = (if b then ascii ''True'' else ascii ''False'')"
| "py_repr (JInt i) = str_int i"
| "py_repr (JStr s) = repr_str s"
| "py_repr (JList xs) = 91 # join (ascii '', '') (map py_repr xs) @ [93]"
| "py_repr (JObj kvs) =
     123 # join (ascii '', '') (map (\<lambda>kv. repr_str (fst kv) @ ascii '': '' @ py_repr (snd kv)) kvs) @ [125]"

definition py_str :: "json \<Rightarrow> str" where
  "py_str v = (case v of JStr s \<Rightarrow> s | _ \<Rightarrow> py_repr v)"

section \<open>The paper record\<close>

record Paper =
  pid :: str
  title :: str
  doi :: str
  version :: str
  date :: str
  category :: str
  authors :: str
  abstract :: str

definition biorxiv_url :: "Paper \<Rightarrow> str" where
  "biorxiv_url p =
     (if doi p \<noteq> [] \<and> version p \<noteq> []
      then ascii ''https://www.biorxiv.org/content/'' @ doi p @ ascii ''v'' @ version p
      else if doi p \<noteq> [] then ascii ''https://doi.org/'' @ doi p else [])"

section \<open>Configuration\<close>

text \<open>
  \<open>env(name, default, required)\<close> reads \<open>os.environ\<close>, here a map from names to values; the
  default may be \<open>None\<close>.
\<close>

definition env :: "(str \<rightharpoonup> str) \<Rightarrow> str \<Rightarrow> str option \<Rightarrow> bool \<Rightarrow> error + str" where
  "env environ name dflt required =
     (let v = (case environ name of Some x \<Rightarrow> Some x | None \<Rightarrow> dflt)
      in if required \<and> (v = None \<or> v = Some []) then Inl RuntimeError
         else Inr (case v of None \<Rightarrow> [] | Some x \<Rightarrow> x))"

section \<open>The paper fetcher\<close>

definition normalize_collection :: "json \<Rightarrow> json list" where
  "normalize_collection payload =
     (case payload of
        JObj kvs \<Rightarrow>
          (case map_of kvs (ascii ''collection'') of
             None \<Rightarrow> []
           | Some c \<Rightarrow>
               (case (if truthy c then c else JList []) of
                  JList col \<Rightarrow> col
                | _ \<Rightarrow> []))
      | JList xs \<Rightarrow> xs
      | _ \<Rightarrow> [])"

text \<open>
  \<open>parse_total\<close> calls \<open>.get\<close> on the payload and on the first message: on a value that is
  not a dict this raises \<open>AttributeError\<close>. A boolean is an \<open>int\<close> for \<open>isinstance\<close>. A string
  that \<open>isdigit\<close> accepts and \<open>int\<close> refuses raises \<open>ValueError\<close>.
\<close>

definition parse_total :: "json \<Rightarrow> error + int option" where
  "parse_total payload =
     (case payload of
        JObj kvs \<Rightarrow>
          (case dict_get kvs (ascii ''messages'') JNull of
             JList (m # ms) \<Rightarrow>
               (case m of
                  JObj mkvs \<Rightarrow>
                    (case dict_get mkvs (ascii ''total'') JNull of
                       JInt i \<Rightarrow> Inr (Some i)
                     | JBool b \<Rightarrow> Inr (Some (if b then 1 else 0))
                     | JStr s \<Rightarrow>
                         (if isdigit s
                          then (case py_int s of Some i \<Rightarrow> Inr (Some i) | None \<Rightarrow> Inl ValueError)
                          else Inr None)
                     | _ \<Rightarrow> Inr None)
                | _ \<Rightarrow> Inl AttributeError)
           | _ \<Rightarrow> Inr None)
      | _ \<Rightarrow> Inl AttributeError)"

subsection \<open>Deduplication\<close>

text \<open>
  The key of a row is \<open>str(row.get("doi", "")).strip()\<close>. The version of the row at hand is
  read by \<open>int(str(row.get("version", "")).strip())\<close>, the version of the row already kept by
  \<open>int(str(best[doi].get("version", "-1")))\<close>, without \<open>strip\<close>; each falls back to \<open>-1\<close>
  when \<open>int\<close> raises.
\<close>

definition doi_key :: "row \<Rightarrow> str" where
  "doi_key r = strip (py_str (dict_get r (ascii ''doi'') (JStr [])))"

definition new_version :: "row \<Rightarrow> int" where
  "new_version r =
     (case py_int (strip (py_str (dict_get r (ascii ''version'') (JStr [])))) of
        Some v \<Rightarrow> v | None \<Rightarrow> - 1)"

definition existing_version :: "row \<Rightarrow> int" where
  "existing_version r =
     (case py_int (py_str (dict_get r (ascii ''version'') (JStr (ascii ''-1'')))) of
        Some v \<Rightarrow> v | None \<Rightarrow> - 1)"

text \<open>One pass of the loop body over \<open>best\<close>, the dict from key to kept row.\<close>

definition dedupe_step :: "(str \<times> row) list \<Rightarrow> row \<Rightarrow> (str \<times> row) list" where
  "dedupe_step best r =
     (let d = doi_key r in
      if d = [] then best
      else
        (case map_of best d of
           None \<Rightarrow> dict_set d r best
         | Some kept \<Rightarrow> if new_version r > existing_version kept then dict_set d r best else best))"

definition dedupe_keep_latest_version :: "row list \<Rightarrow> row list" where
  "dedupe_keep_latest_version rows = map snd (foldl dedupe_step [] rows)"

subsection \<open>Paging\<close>

text \<open>
  The catalog is a function from the cursor to the outcome of one request: the decoded
  payload, or the exception of \<open>requests\<close>. Server, interval and category are the same for
  every request of a run, and the cursor grows with every page that lets the loop go on, so no
  cursor is asked twice and a function of the cursor is all that a run can observe.

  The state of the loop is the cursor, the total once known, the rows so far, and the cursors
  requested so far: the requests are the loop's effect. The loop has no bound of its own: a
  catalog that always answers a full page without a total keeps it running, and the result is
  then \<open>None\<close>.
\<close>

partial_function (option) fetch_pages ::
  "(nat \<Rightarrow> error + json) \<Rightarrow> nat \<Rightarrow> int option \<Rightarrow> json list \<Rightarrow> nat list
     \<Rightarrow> ((error + json list) \<times> nat list) option" where
  "fetch_pages fetch cursor tot all_rows asked =
     (case fetch cursor of
        Inl e \<Rightarrow> Some (Inl e, asked @ [cursor])
      | Inr payload \<Rightarrow>
          (let rows = normalize_collection payload in
           if rows = [] then Some (Inr all_rows, asked @ [cursor])
           else
             (case (if tot = None then parse_total payload else Inr tot) of
                Inl e \<Rightarrow> Some (Inl e, asked @ [cursor])
              | Inr tot' \<Rightarrow>
                  (let cursor' = cursor + length rows in
                   if length rows < 100 then Some (Inr (all_rows @ rows), asked @ [cursor])
                   else if (case tot' of None \<Rightarrow> False | Some t \<Rightarrow> int cursor' \<ge> t)
                     then Some (Inr (all_rows @ rows), asked @ [cursor])
                   else fetch_pages fetch cursor' tot' (all_rows @ rows) (asked @ [cursor])))))"

subsection \<open>Sorting and numbering\<close>

text \<open>
  \<open>rows.sort(key=..., reverse=True)\<close> is a stable sort in descending order of the key: rows
  with equal keys keep their order. The key is \<open>str(r.get("date", ""))\<close>, not stripped.
\<close>

definition date_key :: "row \<Rightarrow> str" where
  "date_key r = py_str (dict_get r (ascii ''date'') (JStr []))"

definition sort_reverse :: "('a \<Rightarrow> 'k::linorder) \<Rightarrow> 'a list \<Rightarrow> 'a list" where
  "sort_reverse f xs = rev (sort_key f (rev xs))"

definition text_field :: "row \<Rightarrow> string \<Rightarrow> str" where
  "text_field r name = strip (py_str (dict_get r (ascii name) (JStr [])))"

definition make_paper :: "nat \<Rightarrow> row \<Rightarrow> Paper" where
  "make_paper i r =
     \<lparr> pid = 80 # fmt_02d i,
       title = text_field r ''title'',
       doi = text_field r ''doi'',
       version = text_field r ''version'',
       date = text_field r ''date'',
       category = text_field r ''category'',
       authors = text_field r ''authors'',
       abstract = text_field r ''abstract'' \<rparr>"

text \<open>\<open>for i, r in enumerate(rows, start=1)\<close>, with \<open>i\<close> the number of the first row.\<close>

fun number_papers :: "nat \<Rightarrow> row list \<Rightarrow> Paper list" where
  "number_papers i [] = []"
| "number_papers i (r # rs) = make_paper i r # number_papers (Suc i) rs"

text \<open>
  The rows come from the payloads, so a row may be any value; \<open>row.get\<close> in the deduplication
  raises \<open>AttributeError\<close> on the first one that is not a dict.
\<close>

fun as_rows :: "json list \<Rightarrow> error + row list" where
  "as_rows [] = Inr []"
| "as_rows (JObj kvs # vs) = (case as_rows vs of Inl e \<Rightarrow> Inl e | Inr rs \<Rightarrow> Inr (kvs # rs))"
| "as_rows (v # vs) = Inl AttributeError"

definition papers_of_rows :: "row list \<Rightarrow> Paper list" where
  "papers_of_rows all_rows =
     number_papers 1 (sort_reverse date_key (dedupe_keep_latest_version all_rows))"

definition load_recent_papers :: "(nat \<Rightarrow> error + json) \<Rightarrow> (error + Paper list) option" where
  "load_recent_papers fetch =
     (case fetch_pages fetch 0 None [] [] of
        None \<Rightarrow> None
      | Some (Inl e, asked) \<Rightarrow> Some (Inl e)
      | Some (Inr all_rows, asked) \<Rightarrow>
          (case as_rows all_rows of
             Inl e \<Rightarrow> Some (Inl e)
           | Inr rs \<Rightarrow> Some (Inr (papers_of_rows rs))))"

section \<open>The response interpreter\<close>

text \<open>
  The three regular expressions of \<open>extract_json\<close>, each as the function it computes.

  \<open>re.sub(r"^```(?:json)?\s*", "", s)\<close>: at the start only, three backticks, then \<open>json\<close> if it
  is there, then all the white space that follows.
\<close>

definition sub_fence_open :: "str \<Rightarrow> str" where
  "sub_fence_open s =
     (if startswith s (ascii ''```'')
      then (let r = drop 3 s;
                r' = (if startswith r (ascii ''json'') then drop 4 r else r)
            in dropWhile isspace r')
      else s)"

text \<open>
  \<open>re.sub(r"\s*```$", "", s)\<close>: the leftmost place from which white space and then three
  backticks reach the end of the string; \<open>$\<close> also matches before a newline that ends the
  string, and that newline stays. \<open>fence_close_at r\<close> is what is left of \<open>r\<close> when the
  pattern matches at its start.
\<close>

definition fence_close_at :: "str \<Rightarrow> str option" where
  "fence_close_at r =
     (let t = dropWhile isspace r
      in if t = ascii ''```'' then Some []
         else if t = ascii ''```'' @ [10] then Some [10]
         else None)"

fun sub_fence_close :: "str \<Rightarrow> str" where
  "sub_fence_close [] = []"
| "sub_fence_close (c # cs) =
     (case fence_close_at (c # cs) of
        Some rest \<Rightarrow> rest
      | None \<Rightarrow> c # sub_fence_close cs)"

text \<open>
  \<open>re.search(r"\{.*\}", s, flags=re.DOTALL)\<close>: from the first opening brace to the last
  closing brace after it, if there is one.
\<close>

definition search_braces :: "str \<Rightarrow> str option" where
  "search_braces s =
     (let t = dropWhile (\<lambda>c. c \<noteq> 123) s
      in if t \<noteq> [] \<and> 125 \<in> set (tl t)
         then Some (rev (dropWhile (\<lambda>c. c \<noteq> 125) (rev t)))
         else None)"

text \<open>
  \<open>json.loads\<close> is the library's parser and a parameter here: it returns the value or the
  exception it raises. The \<open>ValueError\<close> of the last branch is raised by \<open>extract_json\<close>
  itself.
\<close>

definition extract_json :: "(str \<Rightarrow> error + json) \<Rightarrow> str \<Rightarrow> error + json" where
  "extract_json loads text =
     (let cleaned = sub_fence_close (sub_fence_open (strip text))
      in if startswith cleaned [123] \<and> endswith cleaned [125] then loads cleaned
         else (case search_braces cleaned of
                 None \<Rightarrow> Inl ValueError
               | Some m \<Rightarrow> loads m))"

section \<open>The prompt builder\<close>

text \<open>\<open>re.sub(r"\s+", " ", s)\<close>: every maximal run of white space becomes one space.\<close>

function sub_spaces :: "str \<Rightarrow> str" where
  "sub_spaces [] = []"
| "sub_spaces (c # cs) =
     (if isspace c then 32 # sub_spaces (dropWhile isspace cs) else c # sub_spaces cs)"
  by pat_completeness auto
termination
  by (relation "measure length") (auto simp: length_dropWhile_le less_Suc_eq_le)

text \<open>The slice \<open>s[:n]\<close>: a negative \<open>n\<close> counts from the end.\<close>

definition slice_to :: "'a list \<Rightarrow> int \<Rightarrow> 'a list" where
  "slice_to s n = (if 0 \<le> n then take (nat n) s else take (length s - nat (- n)) s)"

text \<open>The local function \<open>clip\<close> of \<open>build_ai_prompt\<close>; U+2026 is the ellipsis.\<close>

definition clip :: "str \<Rightarrow> int \<Rightarrow> str" where
  "clip s n =
     (let s' = strip (sub_spaces s)
      in slice_to s' n @ (if int (length s') > n then [8230] else []))"

section \<open>The digest renderer\<close>






definition display_url :: "Paper \<Rightarrow> str" where
  "display_url p =
     (if biorxiv_url p \<noteq> [] then biorxiv_url p
      else if doi p \<noteq> [] then ascii ''https://doi.org/'' @ doi p else [])"




section \<open>The dispatcher\<close>

text \<open>\<open>re.split(r"[;,]+", raw)\<close>: the pieces between the maximal runs of separators.\<close>

definition is_sep :: "nat \<Rightarrow> bool" where
  "is_sep c \<longleftrightarrow> c = 59 \<or> c = 44"

function split_seps :: "str \<Rightarrow> str list" where
  "split_seps s =
     (let w = takeWhile (\<lambda>c. \<not> is_sep c) s;
          r = dropWhile (\<lambda>c. \<not> is_sep c) s
      in if r = [] then [w] else w # split_seps (dropWhile is_sep r))"
  by pat_completeness auto
termination
proof (relation "measure length")
  show "wf (measure length)" by simp
next
  fix s :: str and w r
  assume r: "r = dropWhile (\<lambda>c. \<not> is_sep c) s" and ne: "r \<noteq> []"
  from r ne have "is_sep (hd r)"
    using hd_dropWhile [of "\<lambda>c. \<not> is_sep c" s] by auto
  with ne have "length (dropWhile is_sep r) < length r"
    by (cases r) (auto simp: less_Suc_eq_le length_dropWhile_le)
  moreover have "length r \<le> length s"
    unfolding r by (rule length_dropWhile_le)
  ultimately show "(dropWhile is_sep r, s) \<in> measure length" by simp
qed

declare split_seps.simps [simp del]

definition parse_recipients :: "str \<Rightarrow> str list" where
  "parse_recipients raw =
     (if raw = [] then []
      else map strip (filter (\<lambda>p. p \<noteq> [] \<and> strip p \<noteq> []) (split_seps raw)))"

text \<open>
  What \<open>send_email\<close> hands to the relay: the session it opens, the message it has built and the
  arguments of \<open>send_message\<close>. With \<open>to_addrs\<close> absent, \<open>smtplib\<close> takes the envelope
  recipients from the \<open>To\<close>, \<open>Bcc\<close> and \<open>Cc\<close> headers of the message.
\<close>

record smtp_send =
  smtp_host :: str
  smtp_port :: int
  smtp_user :: str
  smtp_password :: str
  headers :: "(str \<times> str) list"
  plain_body :: str
  html_alternative :: str
  from_addr :: "str option"
  to_addrs :: "str list option"

definition envelope_fields :: "smtp_send \<Rightarrow> str list" where
  "envelope_fields m =
     (case to_addrs m of
        Some addrs \<Rightarrow> addrs
      | None \<Rightarrow> map snd (filter (\<lambda>h. fst h \<in> {ascii ''To'', ascii ''Bcc'', ascii ''Cc''}) (headers m)))"

definition bind_err :: "error + 'a \<Rightarrow> ('a \<Rightarrow> error + 'b) \<Rightarrow> error + 'b" where
  "bind_err r f = (case r of Inl e \<Rightarrow> Inl e | Inr x \<Rightarrow> f x)"

definition or_else :: "str \<Rightarrow> str \<Rightarrow> str" where
  "or_else s d = (if s = [] then d else s)"

definition int_or_raise :: "str \<Rightarrow> error + int" where
  "int_or_raise s = (case py_int s of None \<Rightarrow> Inl ValueError | Some i \<Rightarrow> Inr i)"

definition fallback_text :: str where
  "fallback_text =
     ascii ''Your email client does not support HTML. Please view this digest in an HTML-capable client.''"

text \<open>
  The module defines \<open>send_email\<close> twice. The second definition (lines 402 to 425) replaces
  the first when the module is loaded, so it is the one \<open>main\<close> calls: \<open>send_email\<close> below.
  The first (lines 343 to 399) is \<open>send_email_shadowed\<close>.
\<close>

definition send_email_shadowed :: "(str \<rightharpoonup> str) \<Rightarrow> str \<Rightarrow> str \<Rightarrow> error + smtp_send" where
  "send_email_shadowed environ subject html_body =
     bind_err (env environ (ascii ''SMTP_HOST'') None True) (\<lambda>host.
     bind_err (env environ (ascii ''SMTP_PORT'') (Some (ascii ''587'')) False) (\<lambda>port_raw.
     bind_err (int_or_raise (or_else port_raw (ascii ''587''))) (\<lambda>port.
     bind_err (env environ (ascii ''SMTP_USER'') None True) (\<lambda>user.
     bind_err (env environ (ascii ''SMTP_PASSWORD'') None True) (\<lambda>password.
     bind_err (env environ (ascii ''EMAIL_TO'') None True) (\<lambda>email_to_raw.
     bind_err (env environ (ascii ''EMAIL_CC'') None False) (\<lambda>email_cc_raw.
     bind_err (env environ (ascii ''EMAIL_BCC'') None False) (\<lambda>email_bcc_raw.
     bind_err (env environ (ascii ''EMAIL_FROM'') (Some user) False) (\<lambda>from_raw.
       (let email_from = or_else from_raw user;
            to_list = parse_recipients email_to_raw;
            cc_list = (if email_cc_raw \<noteq> [] then parse_recipients email_cc_raw else []);
            bcc_list = (if email_bcc_raw \<noteq> [] then parse_recipients email_bcc_raw else [])
        in if to_list = [] then Inl ValueError
           else Inr \<lparr> smtp_host = host, smtp_port = port, smtp_user = user,
                      smtp_password = password,
                      headers =
                        [(ascii ''Subject'', subject), (ascii ''From'', email_from),
                         (ascii ''To'', join (ascii '', '') to_list)]
                        @ (if cc_list \<noteq> [] then [(ascii ''Cc'', join (ascii '', '') cc_list)] else []),
                      plain_body = fallback_text, html_alternative = html_body,
                      from_addr = Some email_from,
                      to_addrs = Some (to_list @ cc_list @ bcc_list) \<rparr>))))))))))"

definition send_email :: "(str \<rightharpoonup> str) \<Rightarrow> str \<Rightarrow> str \<Rightarrow> error + smtp_send" where
  "send_email environ subject html_body =
     bind_err (env environ (ascii ''SMTP_HOST'') None True) (\<lambda>host.
     bind_err (env environ (ascii ''SMTP_PORT'') (Some (ascii ''587'')) False) (\<lambda>port_raw.
     bind_err (int_or_raise (or_else port_raw (ascii ''587''))) (\<lambda>port.
     bind_err (env environ (ascii ''SMTP_USER'') None True) (\<lambda>user.
     bind_err (env environ (ascii ''SMTP_PASSWORD'') None True) (\<lambda>password.
     bind_err (env environ (ascii ''EMAIL_TO'') None True) (\<lambda>email_to.
     bind_err (env environ (ascii ''EMAIL_FROM'') (Some user) False) (\<lambda>from_raw.
       (let email_from = or_else from_raw user
        in Inr \<lparr> smtp_host = host, smtp_port = port, smtp_user = user,
                 smtp_password = password,
                 headers =
                   [(ascii ''Subject'', subject), (ascii ''From'', email_from),
                    (ascii ''To'', email_to)],
                 plain_body = fallback_text, html_alternative = html_body,
                 from_addr = None,
                 to_addrs = None \<rparr>))))))))"

section \<open>The main routine\<close>

text \<open>Line 447: \<open>papers[: max(10, min(max_for_ai, len(papers)))]\<close>.\<close>

definition papers_for_ai :: "int \<Rightarrow> 'a list \<Rightarrow> 'a list" where
  "papers_for_ai max_for_ai papers =
     slice_to papers (max 10 (min max_for_ai (int (length papers))))"

text \<open>
  Lines 458 to 469, on the dict that \<open>extract_json\<close> returned: the four fields with their
  defaults, the check of \<open>top_papers\<close>, the coercion of \<open>general_trends\<close> and the cut to five
  selections. The result holds \<open>top_papers\<close>, \<open>trends\<close>, \<open>general_concept\<close> and
  \<open>specific_concept\<close>.
\<close>

definition is_list :: "json \<Rightarrow> bool" where
  "is_list v = (case v of JList xs \<Rightarrow> True | _ \<Rightarrow> False)"

definition main_selection :: "row \<Rightarrow> error + (json list \<times> json list \<times> json \<times> json)" where
  "main_selection ai =
     (let top_papers = dict_get ai (ascii ''top_papers'') (JList []);
          trends = dict_get ai (ascii ''general_trends'') (JList []);
          general_concept = dict_get ai (ascii ''general_concept'') (JList []);
          specific_concept = dict_get ai (ascii ''specific_concept'') (JList [])
      in (case top_papers of
            JList tp \<Rightarrow>
              Inr (slice_to tp 5,
                   (case trends of JList ts \<Rightarrow> ts | _ \<Rightarrow> [JStr (py_str trends)]),
                   general_concept, specific_concept)
          | _ \<Rightarrow> Inl RuntimeError))"

text \<open>
  Lines 456 to 469 with the call of \<open>extract_json\<close> in front: no handler surrounds it, so
  its exception is the exception of \<open>main\<close>. \<open>ai.get\<close> on a value that is not a dict raises
  \<open>AttributeError\<close>.
\<close>

definition main_answer ::
  "(str \<Rightarrow> error + json) \<Rightarrow> str \<Rightarrow> error + (json list \<times> json list \<times> json \<times> json)" where
  "main_answer loads ai_text =
     bind_err (extract_json loads ai_text)
       (\<lambda>ai. case ai of JObj d \<Rightarrow> main_selection d | _ \<Rightarrow> Inl AttributeError)"

section \<open>Predicates of the specification\<close>

text \<open>
  A string whose white space is collapsed: every white-space character is a plain space
  followed by a character that is not white space, and the string neither begins nor ends with
  white space.
\<close>

fun runs_collapsed :: "str \<Rightarrow> bool" where
  "runs_collapsed (a # b # cs) \<longleftrightarrow> (isspace a \<longrightarrow> a = 32 \<and> \<not> isspace b) \<and> runs_collapsed (b # cs)"
| "runs_collapsed [a] \<longleftrightarrow> (isspace a \<longrightarrow> a = 32)"
| "runs_collapsed [] \<longleftrightarrow> True"

definition collapsed :: "str \<Rightarrow> bool" where
  "collapsed s \<longleftrightarrow> runs_collapsed s \<and> (s \<noteq> [] \<longrightarrow> \<not> isspace (hd s) \<and> \<not> isspace (last s))"

text \<open>
  The latest record of a list: every record before it has a smaller version, every record
  after it a version that is not greater. Versions are read as the loop reads the row at
  hand.
\<close>

definition is_latest :: "row list \<Rightarrow> row \<Rightarrow> bool" where
  "is_latest rs r \<longleftrightarrow>
     (\<exists>before after. rs = before @ r # after
        \<and> (\<forall>x \<in> set before. new_version x < new_version r)
        \<and> (\<forall>x \<in> set after. new_version x \<le> new_version r))"

text \<open>
  The invariant of the deduplication loop, for the rows seen so far: the keys of \<open>best\<close> are
  the keys of those rows, the empty key apart; each kept row carries its key; and, when both
  readings of the version agree on those rows, each kept row is the latest of its key.
\<close>

definition dedupe_inv :: "row list \<Rightarrow> (str \<times> row) list \<Rightarrow> bool" where
  "dedupe_inv rows best \<longleftrightarrow>
     distinct (map fst best)
   \<and> fst ` set best = doi_key ` set rows - {[]}
   \<and> (\<forall>k x. map_of best k = Some x \<longrightarrow>
         doi_key x = k \<and> x \<in> set rows
       \<and> ((\<forall>r \<in> set rows. existing_version r = new_version r) \<longrightarrow>
            is_latest (filter (\<lambda>y. doi_key y = k) rows) x))"


chapter \<open>Properties\<close>

section \<open>The cap on the papers sent to the model\<close>

text \<open>
  Claim C9. For every list of fetched papers and every configured cap \<open>m\<close>, the papers handed
  to the prompt are the first \<open>min(len(papers), max(10, m))\<close> papers: a cap below 10 still
  lets 10 papers through, and fewer than 10 papers are all sent.
\<close>

theorem papers_for_ai_cap:
  "papers_for_ai m papers = take (nat (min (int (length papers)) (max 10 m))) papers
   \<and> length (papers_for_ai m papers) = nat (min (int (length papers)) (max 10 m))"
  by (auto simp: papers_for_ai_def slice_to_def min_def max_def)

theorem papers_for_ai_cap_witness:
  "papers_for_ai 3 [1, 2, 3, 4, 5, 6, 7, 8, 9, 10, 11, 12 :: nat] = [1, 2, 3, 4, 5, 6, 7, 8, 9, 10]
   \<and> papers_for_ai 3 [1, 2, 3 :: nat] = [1, 2, 3]"
  using papers_for_ai_cap [of 3 "[1, 2, 3, 4, 5, 6, 7, 8, 9, 10, 11, 12 :: nat]"]
    papers_for_ai_cap [of 3 "[1, 2, 3 :: nat]"]
  by simp

section \<open>The shape of the model's answer\<close>

text \<open>
  Claim C7. After the answer is parsed, \<open>main\<close> fails exactly when the field \<open>top_papers\<close> is
  there and is not a list, and then with \<open>RuntimeError\<close>; a \<open>general_trends\<close> that is not a list
  becomes the one-element list of its \<open>str\<close> text; and of \<open>top_papers\<close> the first five entries
  are kept, however many there are.
\<close>

theorem main_selection_shape:
  "(main_selection ai = Inl RuntimeError
      \<longleftrightarrow> (\<exists>v. map_of ai (ascii ''top_papers'') = Some v \<and> \<not> is_list v))
   \<and> ((\<exists>e. main_selection ai = Inl e) \<longleftrightarrow> main_selection ai = Inl RuntimeError)
   \<and> (\<forall>tp. dict_get ai (ascii ''top_papers'') (JList []) = JList tp \<longrightarrow>
        main_selection ai =
           Inr (take 5 tp,
                (case dict_get ai (ascii ''general_trends'') (JList []) of
                   JList ts \<Rightarrow> ts
                 | v \<Rightarrow> [JStr (py_str v)]),
                dict_get ai (ascii ''general_concept'') (JList []),
                dict_get ai (ascii ''specific_concept'') (JList [])))"
  by (auto simp: main_selection_def Let_def is_list_def dict_get_def slice_to_def
      split: json.splits option.splits)

theorem main_selection_shape_witness:
  "main_selection
     [(ascii ''top_papers'', JList [JInt 1, JInt 2, JInt 3, JInt 4, JInt 5, JInt 6]),
      (ascii ''general_trends'', JInt 7)]
     = Inr ([JInt 1, JInt 2, JInt 3, JInt 4, JInt 5], [JStr (ascii ''7'')], JList [], JList [])
   \<and> main_selection [(ascii ''top_papers'', JStr (ascii ''P01''))] = Inl RuntimeError"
  using main_selection_shape
      [of "[(ascii ''top_papers'', JList [JInt 1, JInt 2, JInt 3, JInt 4, JInt 5, JInt 6]),
            (ascii ''general_trends'', JInt 7)]"]
    main_selection_shape [of "[(ascii ''top_papers'', JStr (ascii ''P01''))]"]
  by (simp add: dict_get_def ascii_def is_list_def py_str_def str_int_def dec.simps)

section \<open>Clipping\<close>

lemma isspace_32: "isspace 32"
  by (simp add: isspace_def)

lemma sub_spaces_Nil_iff: "sub_spaces s = [] \<longleftrightarrow> s = []"
  by (cases s) auto

lemma hd_sub_spaces: "s \<noteq> [] \<Longrightarrow> \<not> isspace (hd s) \<Longrightarrow> hd (sub_spaces s) = hd s"
  by (cases s) auto

lemma runs_collapsed_Cons:
  "runs_collapsed (a # l) \<longleftrightarrow>
     (isspace a \<longrightarrow> a = 32 \<and> (l \<noteq> [] \<longrightarrow> \<not> isspace (hd l))) \<and> runs_collapsed l"
  by (cases l) auto

lemma runs_collapsed_sub_spaces: "runs_collapsed (sub_spaces s)"
proof (induction s rule: sub_spaces.induct)
  case 1
  show ?case by simp
next
  case (2 c cs)
  show ?case
  proof (cases "isspace c")
    case True
    let ?r = "dropWhile isspace cs"
    have "sub_spaces ?r \<noteq> [] \<longrightarrow> \<not> isspace (hd (sub_spaces ?r))"
    proof
      assume "sub_spaces ?r \<noteq> []"
      then have ne: "?r \<noteq> []" by (simp add: sub_spaces_Nil_iff)
      then have "\<not> isspace (hd ?r)" by (rule hd_dropWhile)
      with ne show "\<not> isspace (hd (sub_spaces ?r))" by (simp add: hd_sub_spaces)
    qed
    with True 2 show ?thesis by (simp add: runs_collapsed_Cons)
  next
    case False
    with 2 show ?thesis by (simp add: runs_collapsed_Cons)
  qed
qed

lemma runs_collapsed_dropWhile: "runs_collapsed s \<Longrightarrow> runs_collapsed (dropWhile P s)"
  by (induction s) (auto simp: runs_collapsed_Cons)

lemma runs_collapsed_take: "runs_collapsed s \<Longrightarrow> runs_collapsed (take k s)"
proof (induction s arbitrary: k)
  case Nil
  show ?case by simp
next
  case (Cons a l)
  show ?case
  proof (cases k)
    case 0
    then show ?thesis by simp
  next
    case (Suc j)
    from Cons have "runs_collapsed (take j l)" by (simp add: runs_collapsed_Cons)
    moreover have "take j l \<noteq> [] \<Longrightarrow> hd (take j l) = hd l" by (cases l; cases j) auto
    moreover have "take j l \<noteq> [] \<Longrightarrow> l \<noteq> []" by auto
    ultimately show ?thesis using Cons.prems Suc by (auto simp: runs_collapsed_Cons)
  qed
qed

lemma rstrip_take: "rstrip s = take (length s - length (takeWhile isspace (rev s))) s"
  by (simp add: rstrip_def dropWhile_eq_drop rev_drop)

lemma runs_collapsed_strip: "runs_collapsed s \<Longrightarrow> runs_collapsed (strip s)"
  unfolding strip_def lstrip_def
  by (subst rstrip_take) (intro runs_collapsed_take runs_collapsed_dropWhile)

lemma rstrip_last: "rstrip s \<noteq> [] \<Longrightarrow> \<not> isspace (last (rstrip s))"
proof -
  assume ne: "rstrip s \<noteq> []"
  then have "dropWhile isspace (rev s) \<noteq> []" by (simp add: rstrip_def)
  then have "\<not> isspace (hd (dropWhile isspace (rev s)))" by (rule hd_dropWhile)
  moreover have "last (rstrip s) = hd (dropWhile isspace (rev s))"
    using ne by (simp add: rstrip_def last_rev)
  ultimately show ?thesis by simp
qed

lemma rstrip_hd:
  assumes "rstrip s \<noteq> []"
  shows "hd (rstrip s) = hd s"
proof -
  obtain k where k: "rstrip s = take k s"
    using rstrip_take by blast
  with assms have "0 < k" by (cases k) auto
  with k show ?thesis by (simp add: hd_take)
qed

lemma strip_ends: "strip s \<noteq> [] \<Longrightarrow> \<not> isspace (hd (strip s)) \<and> \<not> isspace (last (strip s))"
proof -
  assume ne: "strip s \<noteq> []"
  then have l: "lstrip s \<noteq> []" by (auto simp: strip_def rstrip_def)
  then have "\<not> isspace (hd (lstrip s))" unfolding lstrip_def by (rule hd_dropWhile)
  moreover have "hd (strip s) = hd (lstrip s)" using ne by (simp add: strip_def rstrip_hd)
  moreover have "\<not> isspace (last (strip s))" using ne by (simp add: strip_def rstrip_last)
  ultimately show ?thesis by simp
qed

lemma collapsed_strip_sub_spaces: "collapsed (strip (sub_spaces s))"
  by (simp add: collapsed_def runs_collapsed_strip runs_collapsed_sub_spaces strip_ends)

lemma filter_dropWhile_not: "filter (\<lambda>x. \<not> P x) (dropWhile P s) = filter (\<lambda>x. \<not> P x) s"
  by (induction s) auto

lemma filter_strip: "filter (\<lambda>x. \<not> isspace x) (strip s) = filter (\<lambda>x. \<not> isspace x) s"
proof -
  have "filter (\<lambda>x. \<not> isspace x) (rstrip t) = filter (\<lambda>x. \<not> isspace x) t" for t
    by (simp add: rstrip_def rev_filter [symmetric] filter_dropWhile_not)
  then show ?thesis by (simp add: strip_def lstrip_def filter_dropWhile_not)
qed

lemma filter_sub_spaces: "filter (\<lambda>x. \<not> isspace x) (sub_spaces s) = filter (\<lambda>x. \<not> isspace x) s"
  by (induction s rule: sub_spaces.induct) (auto simp: filter_dropWhile_not isspace_32)

lemma sub_spaces_id: "runs_collapsed s \<Longrightarrow> sub_spaces s = s"
proof (induction s rule: sub_spaces.induct)
  case 1
  show ?case by simp
next
  case (2 c cs)
  from 2(3) have rc: "runs_collapsed cs" by (simp add: runs_collapsed_Cons)
  show ?case
  proof (cases "isspace c")
    case True
    with 2(3) have "cs = [] \<or> \<not> isspace (hd cs)" by (auto simp: runs_collapsed_Cons)
    then have "dropWhile isspace cs = cs" by (cases cs) auto
    with True 2 rc show ?thesis by (simp add: runs_collapsed_Cons)
  next
    case False
    with 2 rc show ?thesis by simp
  qed
qed

lemma strip_id: "s = [] \<or> (\<not> isspace (hd s) \<and> \<not> isspace (last s)) \<Longrightarrow> strip s = s"
proof (cases "s = []")
  case True
  then show ?thesis by (simp add: strip_def lstrip_def rstrip_def)
next
  case False
  assume "s = [] \<or> (\<not> isspace (hd s) \<and> \<not> isspace (last s))"
  with False have h: "\<not> isspace (hd s)" and l: "\<not> isspace (last s)" by auto
  from False h have a: "lstrip s = s" by (cases s) (auto simp: lstrip_def)
  from False l have "dropWhile isspace (rev s) = rev s"
    by (cases "rev s") (auto simp: last_rev [symmetric] hd_rev)
  then have "rstrip s = s" by (simp add: rstrip_def)
  with a show ?thesis by (simp add: strip_def)
qed

lemma collapsed_id: "collapsed s \<Longrightarrow> strip (sub_spaces s) = s"
  by (auto simp: collapsed_def sub_spaces_id intro: strip_id)

lemma no_space_collapsed: "\<forall>x \<in> set s. \<not> isspace x \<Longrightarrow> collapsed s"
proof -
  assume a: "\<forall>x \<in> set s. \<not> isspace x"
  then have "runs_collapsed s" by (induction s) (auto simp: runs_collapsed_Cons)
  with a show ?thesis by (auto simp: collapsed_def)
qed

text \<open>
  Claim C8. Clipping to a limit \<open>n\<close> first collapses the white space of the string (runs
  become single spaces, none is left at either end, the other characters are untouched). If
  the collapsed string is longer than \<open>n\<close>, the result is its first \<open>n\<close> characters and one
  ellipsis; otherwise it is the collapsed string, which is the string itself when that was
  collapsed already. So 1000 characters clipped to 900 give 900 characters and the marker, and
  50 characters stay as they are.
\<close>

theorem clip_spec:
  assumes "0 \<le> n"
  shows "collapsed (strip (sub_spaces s))
    \<and> filter (\<lambda>x. \<not> isspace x) (strip (sub_spaces s)) = filter (\<lambda>x. \<not> isspace x) s
    \<and> (int (length (strip (sub_spaces s))) > n \<longrightarrow>
          clip s n = take (nat n) (strip (sub_spaces s)) @ [8230] \<and> int (length (clip s n)) = n + 1)
    \<and> (int (length (strip (sub_spaces s))) \<le> n \<longrightarrow> clip s n = strip (sub_spaces s))
    \<and> (collapsed s \<longrightarrow> strip (sub_spaces s) = s)"
  using assms
  by (auto simp: collapsed_strip_sub_spaces filter_strip filter_sub_spaces collapsed_id
      clip_def Let_def slice_to_def)

theorem clip_spec_witness:
  "clip (replicate 1000 97) 900 = replicate 900 97 @ [8230]
   \<and> clip (replicate 50 97) 900 = replicate 50 97
   \<and> clip (ascii ''  two   words '' @ [9, 10] @ ascii ''here '') 9 = ascii ''two words'' @ [8230]"
proof -
  have c: "collapsed (replicate k 97)" for k
    by (rule no_space_collapsed) (simp add: isspace_def)
  have n: "(0::int) \<le> 900" by simp
  have "clip (replicate 1000 97) 900 = replicate 900 97 @ [8230]"
    using clip_spec [OF n, of "replicate 1000 97"] c [of 1000] by simp
  moreover have "clip (replicate 50 97) 900 = replicate 50 97"
    using clip_spec [OF n, of "replicate 50 97"] c [of 50] by simp
  moreover have "strip (sub_spaces (ascii ''  two   words '' @ [9, 10] @ ascii ''here ''))
      = ascii ''two words here''"
    by (simp add: ascii_def isspace_def strip_def lstrip_def rstrip_def)
  then have "clip (ascii ''  two   words '' @ [9, 10] @ ascii ''here '') 9 = ascii ''two words'' @ [8230]"
    using clip_spec [of 9 "ascii ''  two   words '' @ [9, 10] @ ascii ''here ''"]
    by (simp add: ascii_def)
  ultimately show ?thesis by simp
qed

section \<open>Deduplication\<close>

lemma map_of_dict_set: "map_of (dict_set k v al) = (map_of al)(k \<mapsto> v)"
  by (induction al) (auto simp: fun_eq_iff)

lemma keys_dict_set:
  "map fst (dict_set k v al) = (if k \<in> fst ` set al then map fst al else map fst al @ [k])"
  by (induction al) auto

lemma distinct_dict_set: "distinct (map fst al) \<Longrightarrow> distinct (map fst (dict_set k v al))"
  by (simp add: keys_dict_set)

lemma dedupe_invI:
  assumes "distinct (map fst best)"
    and "fst ` set best = doi_key ` set rows - {[]}"
    and "\<And>k x. map_of best k = Some x \<Longrightarrow>
         doi_key x = k \<and> x \<in> set rows
       \<and> ((\<forall>r \<in> set rows. existing_version r = new_version r) \<longrightarrow>
            is_latest (filter (\<lambda>y. doi_key y = k) rows) x)"
  shows "dedupe_inv rows best"
  unfolding dedupe_inv_def using assms by blast

lemma is_latest_single: "is_latest [r] r"
  unfolding is_latest_def by (rule exI [of _ "[]"], rule exI [of _ "[]"]) simp

lemma is_latest_keep:
  assumes "is_latest rs x" and "new_version r \<le> new_version x"
  shows "is_latest (rs @ [r]) x"
proof -
  from assms(1) obtain before after where
    rs: "rs = before @ x # after"
    and b: "\<forall>y \<in> set before. new_version y < new_version x"
    and a: "\<forall>y \<in> set after. new_version y \<le> new_version x"
    unfolding is_latest_def by blast
  have "rs @ [r] = before @ x # (after @ [r])" by (simp add: rs)
  moreover have "\<forall>y \<in> set (after @ [r]). new_version y \<le> new_version x"
    using a assms(2) by auto
  ultimately show ?thesis unfolding is_latest_def using b by blast
qed

lemma is_latest_replace:
  assumes "is_latest rs x" and "new_version x < new_version r"
  shows "is_latest (rs @ [r]) r"
proof -
  from assms(1) obtain before after where
    rs: "rs = before @ x # after"
    and b: "\<forall>y \<in> set before. new_version y < new_version x"
    and a: "\<forall>y \<in> set after. new_version y \<le> new_version x"
    unfolding is_latest_def by blast
  have "\<forall>y \<in> set rs. new_version y < new_version r"
    using a b assms(2) by (fastforce simp: rs)
  then show ?thesis
    unfolding is_latest_def by (intro exI [of _ rs] exI [of _ "[]"]) simp
qed

lemma dedupe_inv_step:
  assumes inv: "dedupe_inv rows best"
  shows "dedupe_inv (rows @ [r]) (dedupe_step best r)"
proof -
  from inv have dist: "distinct (map fst best)"
    and keys: "fst ` set best = doi_key ` set rows - {[]}"
    and ent: "\<And>k x. map_of best k = Some x \<Longrightarrow> doi_key x = k \<and> x \<in> set rows"
    and lat: "\<And>k x. map_of best k = Some x \<Longrightarrow> \<forall>r \<in> set rows. existing_version r = new_version r
        \<Longrightarrow> is_latest (filter (\<lambda>y. doi_key y = k) rows) x"
    unfolding dedupe_inv_def by blast+
  let ?d = "doi_key r"
  show ?thesis
  proof (cases "?d = []")
    case True
    then have step: "dedupe_step best r = best" by (simp add: dedupe_step_def)
    have k2: "fst ` set best = doi_key ` set (rows @ [r]) - {[]}"
      using keys True by auto
    have flt: "filter (\<lambda>y. doi_key y = k) (rows @ [r]) = filter (\<lambda>y. doi_key y = k) rows"
      if "map_of best k = Some x" for k x
    proof -
      from that have "k \<in> fst ` set best" by (metis map_of_SomeD fst_conv image_eqI)
      with keys have "k \<noteq> []" by auto
      with True show ?thesis by simp
    qed
    have k3: "doi_key x = k \<and> x \<in> set (rows @ [r])
          \<and> ((\<forall>y \<in> set (rows @ [r]). existing_version y = new_version y) \<longrightarrow>
               is_latest (filter (\<lambda>y. doi_key y = k) (rows @ [r])) x)"
      if m: "map_of best k = Some x" for k x
      using ent [OF m] lat [OF m] flt [OF m] by auto
    show ?thesis unfolding step by (rule dedupe_invI [OF dist k2 k3])
  next
    case False
    show ?thesis
    proof (cases "map_of best ?d")
      case None
      then have step: "dedupe_step best r = dict_set ?d r best"
        using False by (simp add: dedupe_step_def)
      from None have notin: "?d \<notin> fst ` set best" by (simp add: map_of_eq_None_iff)
      have fresh: "\<forall>y \<in> set rows. doi_key y \<noteq> ?d"
      proof (intro ballI notI)
        fix y
        assume "y \<in> set rows" and "doi_key y = ?d"
        then have "?d \<in> doi_key ` set rows" by (metis image_eqI)
        with False have "?d \<in> doi_key ` set rows - {[]}" by simp
        with keys notin show False by simp
      qed
      have k1: "distinct (map fst (dict_set ?d r best))" using dist by (rule distinct_dict_set)
      have k2: "fst ` set (dict_set ?d r best) = doi_key ` set (rows @ [r]) - {[]}"
      proof -
        have "fst ` set (dict_set ?d r best) = set (map fst (dict_set ?d r best))" by simp
        also have "\<dots> = insert ?d (fst ` set best)" using notin by (simp add: keys_dict_set)
        finally show ?thesis using keys False by auto
      qed
      have k3: "doi_key x = k \<and> x \<in> set (rows @ [r])
          \<and> ((\<forall>y \<in> set (rows @ [r]). existing_version y = new_version y) \<longrightarrow>
               is_latest (filter (\<lambda>y. doi_key y = k) (rows @ [r])) x)"
        if m: "map_of (dict_set ?d r best) k = Some x" for k x
      proof (cases "k = ?d")
        case True
        with m have x: "x = r" by (simp add: map_of_dict_set)
        have "filter (\<lambda>y. doi_key y = ?d) rows = []" using fresh by (simp add: filter_empty_conv)
        then show ?thesis using True x by (simp add: is_latest_single)
      next
        case neq: False
        with m have old: "map_of best k = Some x" by (simp add: map_of_dict_set)
        from neq have "filter (\<lambda>y. doi_key y = k) (rows @ [r]) = filter (\<lambda>y. doi_key y = k) rows"
          by auto
        then show ?thesis using ent [OF old] lat [OF old] by auto
      qed
      show ?thesis unfolding step by (rule dedupe_invI [OF k1 k2 k3])
    next
      case (Some kept)
      from Some have inkeys: "?d \<in> fst ` set best" by (metis map_of_SomeD fst_conv image_eqI)
      have keysame: "fst ` set (dict_set ?d r best) = fst ` set best"
      proof -
        have "fst ` set (dict_set ?d r best) = set (map fst (dict_set ?d r best))" by simp
        also have "\<dots> = fst ` set best" using inkeys by (simp add: keys_dict_set)
        finally show ?thesis .
      qed
      have k2: "fst ` set best = doi_key ` set (rows @ [r]) - {[]}"
        using keys inkeys by auto
      show ?thesis
      proof (cases "new_version r > existing_version kept")
        case True
        then have step: "dedupe_step best r = dict_set ?d r best"
          using False Some by (simp add: dedupe_step_def)
        have k3: "doi_key x = k \<and> x \<in> set (rows @ [r])
          \<and> ((\<forall>y \<in> set (rows @ [r]). existing_version y = new_version y) \<longrightarrow>
               is_latest (filter (\<lambda>y. doi_key y = k) (rows @ [r])) x)"
          if m: "map_of (dict_set ?d r best) k = Some x" for k x
        proof (cases "k = ?d")
          case keq: True
          with m have x: "x = r" by (simp add: map_of_dict_set)
          have "is_latest (filter (\<lambda>y. doi_key y = ?d) rows @ [r]) r"
            if agree: "\<forall>y \<in> set (rows @ [r]). existing_version y = new_version y"
          proof -
            from agree have "\<forall>y \<in> set rows. existing_version y = new_version y" by simp
            from lat [OF Some this] have l: "is_latest (filter (\<lambda>y. doi_key y = ?d) rows) kept" .
            from ent [OF Some] agree have "existing_version kept = new_version kept" by simp
            with True have "new_version kept < new_version r" by simp
            with l show ?thesis by (rule is_latest_replace)
          qed
          then show ?thesis using keq x by simp
        next
          case neq: False
          with m have old: "map_of best k = Some x" by (simp add: map_of_dict_set)
          from neq have "filter (\<lambda>y. doi_key y = k) (rows @ [r]) = filter (\<lambda>y. doi_key y = k) rows"
            by auto
          then show ?thesis using ent [OF old] lat [OF old] by auto
        qed
        have k2': "fst ` set (dict_set ?d r best) = doi_key ` set (rows @ [r]) - {[]}"
          using keysame k2 by simp
        show ?thesis
          unfolding step by (rule dedupe_invI [OF distinct_dict_set [OF dist] k2' k3])
      next
        case notgt: False
        then have step: "dedupe_step best r = best"
          using False Some by (simp add: dedupe_step_def)
        have k3: "doi_key x = k \<and> x \<in> set (rows @ [r])
          \<and> ((\<forall>y \<in> set (rows @ [r]). existing_version y = new_version y) \<longrightarrow>
               is_latest (filter (\<lambda>y. doi_key y = k) (rows @ [r])) x)"
          if m: "map_of best k = Some x" for k x
        proof (cases "k = ?d")
          case keq: True
          with m Some have x: "x = kept" by simp
          have "is_latest (filter (\<lambda>y. doi_key y = ?d) rows @ [r]) kept"
            if agree: "\<forall>y \<in> set (rows @ [r]). existing_version y = new_version y"
          proof -
            from agree have "\<forall>y \<in> set rows. existing_version y = new_version y" by simp
            from lat [OF Some this] have l: "is_latest (filter (\<lambda>y. doi_key y = ?d) rows) kept" .
            from ent [OF Some] agree have "existing_version kept = new_version kept" by simp
            with notgt have "new_version r \<le> new_version kept" by simp
            with l show ?thesis by (rule is_latest_keep)
          qed
          then show ?thesis using keq x ent [OF Some] by simp
        next
          case neq: False
          then have "filter (\<lambda>y. doi_key y = k) (rows @ [r]) = filter (\<lambda>y. doi_key y = k) rows"
            by auto
          then show ?thesis using ent [OF m] lat [OF m] by auto
        qed
        show ?thesis unfolding step by (rule dedupe_invI [OF dist k2 k3])
      qed
    qed
  qed
qed

lemma dedupe_inv_foldl: "dedupe_inv rows (foldl dedupe_step [] rows)"
proof (induction rows rule: rev_induct)
  case Nil
  show ?case by (simp add: dedupe_inv_def)
next
  case (snoc r rows)
  then show ?case by (simp add: dedupe_inv_step)
qed

lemma in_dedupe_iff:
  "r \<in> set (dedupe_keep_latest_version rows)
     \<longleftrightarrow> (\<exists>k. map_of (foldl dedupe_step [] rows) k = Some r)"
proof -
  have "distinct (map fst (foldl dedupe_step [] rows))"
    using dedupe_inv_foldl [of rows] by (simp add: dedupe_inv_def)
  then show ?thesis
    unfolding dedupe_keep_latest_version_def by (force simp: map_of_eq_Some_iff)
qed

lemma dedupe_keys:
  "map doi_key (dedupe_keep_latest_version rows) = map fst (foldl dedupe_step [] rows)"
proof -
  let ?best = "foldl dedupe_step [] rows"
  have inv: "dedupe_inv rows ?best" by (rule dedupe_inv_foldl)
  have "doi_key (snd p) = fst p" if "p \<in> set ?best" for p
  proof -
    from inv have "distinct (map fst ?best)" by (simp add: dedupe_inv_def)
    with that have "map_of ?best (fst p) = Some (snd p)" by (simp add: map_of_eq_Some_iff)
    with inv show ?thesis unfolding dedupe_inv_def by blast
  qed
  then show ?thesis by (simp add: dedupe_keep_latest_version_def)
qed

lemma dedupe_general:
  "distinct (map doi_key (dedupe_keep_latest_version rows))
   \<and> set (map doi_key (dedupe_keep_latest_version rows)) = doi_key ` set rows - {[]}
   \<and> set (dedupe_keep_latest_version rows) \<subseteq> set rows"
proof -
  have inv: "dedupe_inv rows (foldl dedupe_step [] rows)" by (rule dedupe_inv_foldl)
  have "set (dedupe_keep_latest_version rows) \<subseteq> set rows"
    using inv unfolding dedupe_inv_def by (auto simp: in_dedupe_iff)
  then show ?thesis
    using inv unfolding dedupe_inv_def by (simp add: dedupe_keys)
qed

lemma dedupe_latest:
  assumes "\<forall>r \<in> set rows. existing_version r = new_version r"
    and "r \<in> set (dedupe_keep_latest_version rows)"
  shows "is_latest (filter (\<lambda>y. doi_key y = doi_key r) rows) r"
proof -
  from assms(2) obtain k where k: "map_of (foldl dedupe_step [] rows) k = Some r"
    by (auto simp: in_dedupe_iff)
  with dedupe_inv_foldl [of rows] assms(1) show ?thesis
    unfolding dedupe_inv_def by blast
qed

lemma decimal_value_ascii_digit: "48 \<le> c \<Longrightarrow> c \<le> 57 \<Longrightarrow> decimal_value c = Some (c - 48)"
  by (simp add: decimal_value_def decimal_blocks_def)

lemma py_int_3: "py_int [51] = Some 3"
  by (simp add: py_int_def int_space_def isspace_def digits_ok_def decimal_value_ascii_digit
      digits_value_def int_max_str_digits_def Let_def)

lemma py_int_2: "py_int [50] = Some 2"
  by (simp add: py_int_def int_space_def isspace_def digits_ok_def decimal_value_ascii_digit
      digits_value_def int_max_str_digits_def Let_def)

lemma decimal_value_28: "decimal_value 28 = None"
  by (simp add: decimal_value_def decimal_blocks_def)

lemma py_int_fs_3: "py_int [28, 51] = None"
  by (simp add: py_int_def int_space_def isspace_def digits_ok_def decimal_value_28
      digits_value_def int_max_str_digits_def Let_def)

lemma strip_fs_3: "strip [28, 51] = [51]"
  by (simp add: strip_def lstrip_def rstrip_def isspace_def)

lemma strip_2: "strip [50] = [50]"
  by (simp add: strip_def lstrip_def rstrip_def isspace_def)

lemma strip_X: "strip [88] = [88]"
  by (simp add: strip_def lstrip_def rstrip_def isspace_def)

lemma ascii_doi: "ascii ''doi'' = [100, 111, 105]"
  by (simp add: ascii_def)

lemma ascii_version: "ascii ''version'' = [118, 101, 114, 115, 105, 111, 110]"
  by (simp add: ascii_def)

text \<open>
  Claim C2. Deduplication keeps one record for each distinct key that is not empty
  (\<open>dedupe_general\<close>), and where the two readings of the version agree on every row, the
  kept record is the first one with the greatest version of its key (\<open>dedupe_latest\<close>).
  They do not agree on every row: the version of the row at hand is stripped before \<open>int\<close>
  reads it, the version of the row already kept is not, and \<open>int\<close> does not skip the
  separators U+001C to U+001F that \<open>strip\<close> removes. For two records of one DOI with the
  versions U+001C 3 and 2, the first is read as 3 when it arrives and as \<open>-1\<close> when it
  is the kept one: the record of version 2 replaces it, and in the other order the record of
  version 3 wins.
\<close>

theorem dedupe_version_asymmetry:
  "dedupe_keep_latest_version
     [[(ascii ''doi'', JStr (ascii ''X'')), (ascii ''version'', JStr [28, 51])],
      [(ascii ''doi'', JStr (ascii ''X'')), (ascii ''version'', JStr (ascii ''2''))]]
   = [[(ascii ''doi'', JStr (ascii ''X'')), (ascii ''version'', JStr (ascii ''2''))]]
   \<and> new_version [(ascii ''doi'', JStr (ascii ''X'')), (ascii ''version'', JStr [28, 51])] = 3
   \<and> new_version [(ascii ''doi'', JStr (ascii ''X'')), (ascii ''version'', JStr (ascii ''2''))] = 2
   \<and> dedupe_keep_latest_version
     [[(ascii ''doi'', JStr (ascii ''X'')), (ascii ''version'', JStr (ascii ''2''))],
      [(ascii ''doi'', JStr (ascii ''X'')), (ascii ''version'', JStr [28, 51])]]
   = [[(ascii ''doi'', JStr (ascii ''X'')), (ascii ''version'', JStr [28, 51])]]"
proof -
  let ?a = "[(ascii ''doi'', JStr (ascii ''X'')), (ascii ''version'', JStr [28, 51])]"
  let ?b = "[(ascii ''doi'', JStr (ascii ''X'')), (ascii ''version'', JStr (ascii ''2''))]"
  have ka: "doi_key ?a = [88]" and kb: "doi_key ?b = [88]"
    by (simp_all add: doi_key_def dict_get_def py_str_def ascii_def strip_X)
  have na: "new_version ?a = 3" and ea: "existing_version ?a = - 1"
    by (simp_all add: new_version_def existing_version_def dict_get_def py_str_def
        ascii_doi ascii_version strip_fs_3 py_int_3 py_int_fs_3)
  have nb: "new_version ?b = 2" and eb: "existing_version ?b = 2"
    by (simp_all add: new_version_def existing_version_def dict_get_def py_str_def
        ascii_def strip_2 py_int_2)
  have "foldl dedupe_step [] [?a, ?b] = [([88], ?b)]"
    by (simp add: dedupe_step_def ka kb na nb ea eb)
  moreover have "foldl dedupe_step [] [?b, ?a] = [([88], ?a)]"
    by (simp add: dedupe_step_def ka kb na nb ea eb)
  ultimately show ?thesis
    by (simp add: dedupe_keep_latest_version_def na nb)
qed

section \<open>Records without a DOI\<close>

lemma strip_all_space:
  assumes "\<forall>c \<in> set s. isspace c"
  shows "strip s = []"
  using assms by (auto simp: strip_def lstrip_def rstrip_def dest: set_dropWhileD)

lemma doi_key_blank:
  assumes "map_of r (ascii ''doi'') = None
     \<or> (\<exists>s. map_of r (ascii ''doi'') = Some (JStr s) \<and> (\<forall>c \<in> set s. isspace c))"
  shows "doi_key r = []"
  using assms by (auto simp: doi_key_def dict_get_def py_str_def strip_all_space)

lemma set_sort_reverse: "set (sort_reverse f xs) = set xs"
  by (simp add: sort_reverse_def)

lemma doi_make_paper: "doi (make_paper i r) = doi_key r"
  by (simp add: make_paper_def text_field_def doi_key_def)

lemma doi_number_papers: "map doi (number_papers i rs) = map doi_key rs"
  by (induction rs arbitrary: i) (simp_all add: doi_make_paper)

lemma display_url_nonempty: "doi p \<noteq> [] \<Longrightarrow> display_url p \<noteq> []"
  by (simp add: display_url_def biorxiv_url_def ascii_def)

lemma papers_of_rows_doi:
  assumes "p \<in> set (papers_of_rows rows)"
  shows "doi p \<noteq> []"
proof -
  let ?rs = "sort_reverse date_key (dedupe_keep_latest_version rows)"
  from assms have "doi p \<in> set (map doi (number_papers 1 ?rs))"
    by (simp add: papers_of_rows_def)
  then have "doi p \<in> doi_key ` set (dedupe_keep_latest_version rows)"
    by (simp add: doi_number_papers set_sort_reverse)
  then have "doi p \<in> set (map doi_key (dedupe_keep_latest_version rows))" by simp
  then show ?thesis using dedupe_general [of rows] by auto
qed

lemma load_recent_papers_rows:
  assumes "load_recent_papers fetch = Some (Inr papers)"
  shows "\<exists>rows. papers = papers_of_rows rows"
  using assms
  by (auto simp: load_recent_papers_def split: option.splits sum.splits prod.splits)

text \<open>
  Claim C10. A record whose \<open>doi\<close> field is absent, empty or white space only is not among
  the deduplicated records; so every paper the fetcher builds has a DOI that is not empty, and
  its display URL is not empty either.
\<close>

theorem blank_doi_dropped:
  "(\<forall>r \<in> set rows.
      (map_of r (ascii ''doi'') = None
        \<or> (\<exists>s. map_of r (ascii ''doi'') = Some (JStr s) \<and> (\<forall>c \<in> set s. isspace c)))
      \<longrightarrow> r \<notin> set (dedupe_keep_latest_version rows))
   \<and> (\<forall>p \<in> set (papers_of_rows rows). doi p \<noteq> [] \<and> display_url p \<noteq> [])
   \<and> (\<forall>papers. load_recent_papers fetch = Some (Inr papers) \<longrightarrow>
         (\<forall>p \<in> set papers. doi p \<noteq> [] \<and> display_url p \<noteq> []))"
proof (intro conjI ballI impI allI)
  fix r
  assume "r \<in> set rows"
    and "map_of r (ascii ''doi'') = None
      \<or> (\<exists>s. map_of r (ascii ''doi'') = Some (JStr s) \<and> (\<forall>c \<in> set s. isspace c))"
  then have "doi_key r = []" by (simp add: doi_key_blank)
  moreover have "[] \<notin> set (map doi_key (dedupe_keep_latest_version rows))"
    using dedupe_general [of rows] by simp
  ultimately show "r \<notin> set (dedupe_keep_latest_version rows)" by force
next
  fix p
  assume "p \<in> set (papers_of_rows rows)"
  then show "doi p \<noteq> []" by (rule papers_of_rows_doi)
next
  fix p
  assume "p \<in> set (papers_of_rows rows)"
  then show "display_url p \<noteq> []" by (simp add: papers_of_rows_doi display_url_nonempty)
next
  fix papers p
  assume "load_recent_papers fetch = Some (Inr papers)" and p: "p \<in> set papers"
  then obtain rs where "papers = papers_of_rows rs" using load_recent_papers_rows by blast
  with p show "doi p \<noteq> []" by (simp add: papers_of_rows_doi)
next
  fix papers p
  assume "load_recent_papers fetch = Some (Inr papers)" and p: "p \<in> set papers"
  then obtain rs where "papers = papers_of_rows rs" using load_recent_papers_rows by blast
  with p show "display_url p \<noteq> []" by (simp add: papers_of_rows_doi display_url_nonempty)
qed

lemma strip_space: "strip [32] = []"
  by (simp add: strip_def lstrip_def rstrip_def isspace_def)

lemma sort_reverse_single: "sort_reverse f [x] = [x]"
  by (simp add: sort_reverse_def)

theorem blank_doi_dropped_witness:
  "[(ascii ''doi'', JStr [32])]
     \<notin> set (dedupe_keep_latest_version
         [[(ascii ''doi'', JStr [32])], [(ascii ''doi'', JStr (ascii ''X''))]])
   \<and> load_recent_papers
        (\<lambda>cursor. if cursor = 0
           then Inr (JObj [(ascii ''collection'',
                  JList [JObj [(ascii ''doi'', JStr [32])], JObj [(ascii ''doi'', JStr (ascii ''X''))]])])
           else Inl RequestError)
      = Some (Inr [make_paper 1 [(ascii ''doi'', JStr (ascii ''X''))]])
   \<and> doi (make_paper 1 [(ascii ''doi'', JStr (ascii ''X''))]) \<noteq> []
   \<and> display_url (make_paper 1 [(ascii ''doi'', JStr (ascii ''X''))]) \<noteq> []"
proof -
  let ?e = "[(ascii ''doi'', JStr [32])]"
  let ?k = "[(ascii ''doi'', JStr (ascii ''X''))]"
  let ?payload = "JObj [(ascii ''collection'', JList [JObj ?e, JObj ?k])]"
  let ?fetch = "\<lambda>cursor::nat. if cursor = 0 then Inr ?payload else Inl RequestError"
  have blank: "map_of ?e (ascii ''doi'') = None
      \<or> (\<exists>s. map_of ?e (ascii ''doi'') = Some (JStr s) \<and> (\<forall>c \<in> set s. isspace c))"
    by (simp add: isspace_def)
  have ke: "doi_key ?e = []" and kk: "doi_key ?k = [88]"
    by (simp_all add: doi_key_def dict_get_def py_str_def ascii_def strip_X strip_space)
  have dd: "dedupe_keep_latest_version [?e, ?k] = [?k]"
    by (simp add: dedupe_keep_latest_version_def dedupe_step_def ke kk)
  have pp: "papers_of_rows [?e, ?k] = [make_paper 1 ?k]"
    by (simp add: papers_of_rows_def dd sort_reverse_single)
  have nc: "normalize_collection ?payload = [JObj ?e, JObj ?k]"
    by (simp add: normalize_collection_def)
  have pt: "parse_total ?payload = Inr None"
    by (simp add: parse_total_def dict_get_def ascii_def)
  have fp: "fetch_pages ?fetch 0 None [] [] = Some (Inr [JObj ?e, JObj ?k], [0])"
    by (subst fetch_pages.simps) (simp add: nc pt)
  have lp: "load_recent_papers ?fetch = Some (Inr [make_paper 1 ?k])"
    by (simp add: load_recent_papers_def fp pp)
  have mem: "?e \<in> set [?e, ?k]" by simp
  from blank_doi_dropped [of "[?e, ?k]" ?fetch] blank mem lp
  have "?e \<notin> set (dedupe_keep_latest_version [?e, ?k])"
    and "doi (make_paper 1 ?k) \<noteq> [] \<and> display_url (make_paper 1 ?k) \<noteq> []"
    by auto
  with lp show ?thesis by simp
qed

section \<open>Paging\<close>

lemma fetch_pages_empty_page:
  assumes "fetch cursor = Inr payload" and "normalize_collection payload = []"
  shows "fetch_pages fetch cursor tot all_rows asked = Some (Inr all_rows, asked @ [cursor])"
  by (subst fetch_pages.simps) (simp add: assms)

lemma fetch_pages_request_error:
  assumes "fetch cursor = Inl e"
  shows "fetch_pages fetch cursor tot all_rows asked = Some (Inl e, asked @ [cursor])"
  by (subst fetch_pages.simps) (simp add: assms)

lemma fetch_pages_short_page:
  assumes "fetch cursor = Inr payload"
    and "normalize_collection payload \<noteq> []"
    and "length (normalize_collection payload) < 100"
  shows "fetch_pages fetch cursor tot all_rows asked =
     (case (if tot = None then parse_total payload else Inr tot) of
        Inl e \<Rightarrow> Some (Inl e, asked @ [cursor])
      | Inr t \<Rightarrow> Some (Inr (all_rows @ normalize_collection payload), asked @ [cursor]))"
  by (subst fetch_pages.simps) (simp add: assms Let_def split: sum.splits)

lemma fetch_pages_total_reached:
  assumes "fetch cursor = Inr payload"
    and "normalize_collection payload \<noteq> []"
    and "(if tot = None then parse_total payload else Inr tot) = Inr (Some t)"
    and "t \<le> int (cursor + length (normalize_collection payload))"
  shows "fetch_pages fetch cursor tot all_rows asked =
     Some (Inr (all_rows @ normalize_collection payload), asked @ [cursor])"
  using assms(4) by (subst fetch_pages.simps) (simp add: assms(1-3) Let_def)

lemma fetch_pages_continue:
  assumes "fetch cursor = Inr payload"
    and "100 \<le> length (normalize_collection payload)"
    and "(if tot = None then parse_total payload else Inr tot) = Inr tot'"
    and "tot' = None \<or> (\<exists>t. tot' = Some t \<and> int (cursor + length (normalize_collection payload)) < t)"
  shows "fetch_pages fetch cursor tot all_rows asked =
     fetch_pages fetch (cursor + length (normalize_collection payload)) tot'
       (all_rows @ normalize_collection payload) (asked @ [cursor])"
proof -
  from assms(2) have ne: "normalize_collection payload \<noteq> []" by auto
  show ?thesis
    using assms(2,4)
    by (subst fetch_pages.simps) (auto simp: assms(1,3) ne Let_def)
qed

lemma fetch_pages_known_total_second_page:
  assumes "t \<le> int cursor + 100"
  shows "\<exists>out. fetch_pages fetch cursor (Some t) all_rows asked = Some (out, asked @ [cursor])"
proof (cases "fetch cursor")
  case (Inl e)
  then show ?thesis by (simp add: fetch_pages_request_error)
next
  case (Inr payload)
  show ?thesis
  proof (cases "normalize_collection payload = []")
    case True
    with Inr show ?thesis by (simp add: fetch_pages_empty_page)
  next
    case ne: False
    show ?thesis
    proof (cases "length (normalize_collection payload) < 100")
      case True
      with Inr ne show ?thesis by (simp add: fetch_pages_short_page)
    next
      case False
      with assms have "t \<le> int (cursor + length (normalize_collection payload))" by simp
      with Inr ne show ?thesis by (simp add: fetch_pages_total_reached)
    qed
  qed
qed

text \<open>
  Claim C3. One pass of the paging loop, from any state: a page without rows ends the loop at
  once, whether a total is known or not; a page of fewer than 100 rows ends it after that page
  (with the rows, or with the exception of \<open>parse_total\<close> when the total is still unknown and
  the payload is malformed); a known total that the cursor has reached ends it; in every other
  case the loop asks for the next page. With a first page of 100 rows that announces a total
  of 150, the requests are those for the cursors 0 and 100 and no more, whatever the second
  request brings.
\<close>

theorem fetch_pages_stops:
  "(\<forall>payload. fetch cursor = Inr payload \<and> normalize_collection payload = [] \<longrightarrow>
      fetch_pages fetch cursor tot all_rows asked = Some (Inr all_rows, asked @ [cursor]))
   \<and> (\<forall>payload. fetch cursor = Inr payload \<and> normalize_collection payload \<noteq> []
         \<and> length (normalize_collection payload) < 100 \<longrightarrow>
      fetch_pages fetch cursor tot all_rows asked =
        (case (if tot = None then parse_total payload else Inr tot) of
           Inl e \<Rightarrow> Some (Inl e, asked @ [cursor])
         | Inr t \<Rightarrow> Some (Inr (all_rows @ normalize_collection payload), asked @ [cursor])))
   \<and> (\<forall>payload t. fetch cursor = Inr payload \<and> normalize_collection payload \<noteq> []
         \<and> (if tot = None then parse_total payload else Inr tot) = Inr (Some t)
         \<and> t \<le> int (cursor + length (normalize_collection payload)) \<longrightarrow>
      fetch_pages fetch cursor tot all_rows asked =
        Some (Inr (all_rows @ normalize_collection payload), asked @ [cursor]))
   \<and> (\<forall>payload tot'. fetch cursor = Inr payload \<and> 100 \<le> length (normalize_collection payload)
         \<and> (if tot = None then parse_total payload else Inr tot) = Inr tot'
         \<and> (tot' = None
              \<or> (\<exists>t. tot' = Some t \<and> int (cursor + length (normalize_collection payload)) < t)) \<longrightarrow>
      fetch_pages fetch cursor tot all_rows asked =
        fetch_pages fetch (cursor + length (normalize_collection payload)) tot'
          (all_rows @ normalize_collection payload) (asked @ [cursor]))
   \<and> (\<forall>page1. fetch 0 = Inr page1 \<and> length (normalize_collection page1) = 100
         \<and> parse_total page1 = Inr (Some 150) \<longrightarrow>
      (\<exists>out. fetch_pages fetch 0 None [] [] = Some (out, [0, 100])))"
proof (intro conjI allI impI)
  fix payload
  assume "fetch cursor = Inr payload \<and> normalize_collection payload = []"
  then show "fetch_pages fetch cursor tot all_rows asked = Some (Inr all_rows, asked @ [cursor])"
    by (simp add: fetch_pages_empty_page)
next
  fix payload
  assume "fetch cursor = Inr payload \<and> normalize_collection payload \<noteq> []
         \<and> length (normalize_collection payload) < 100"
  then show "fetch_pages fetch cursor tot all_rows asked =
        (case (if tot = None then parse_total payload else Inr tot) of
           Inl e \<Rightarrow> Some (Inl e, asked @ [cursor])
         | Inr t \<Rightarrow> Some (Inr (all_rows @ normalize_collection payload), asked @ [cursor]))"
    using fetch_pages_short_page [of fetch cursor payload tot all_rows asked] by blast
next
  fix payload t
  assume "fetch cursor = Inr payload \<and> normalize_collection payload \<noteq> []
         \<and> (if tot = None then parse_total payload else Inr tot) = Inr (Some t)
         \<and> t \<le> int (cursor + length (normalize_collection payload))"
  then show "fetch_pages fetch cursor tot all_rows asked =
        Some (Inr (all_rows @ normalize_collection payload), asked @ [cursor])"
    using fetch_pages_total_reached [of fetch cursor payload tot t all_rows asked] by blast
next
  fix payload tot'
  assume "fetch cursor = Inr payload \<and> 100 \<le> length (normalize_collection payload)
         \<and> (if tot = None then parse_total payload else Inr tot) = Inr tot'
         \<and> (tot' = None
              \<or> (\<exists>t. tot' = Some t \<and> int (cursor + length (normalize_collection payload)) < t))"
  then show "fetch_pages fetch cursor tot all_rows asked =
        fetch_pages fetch (cursor + length (normalize_collection payload)) tot'
          (all_rows @ normalize_collection payload) (asked @ [cursor])"
    using fetch_pages_continue [of fetch cursor payload tot tot' all_rows asked] by blast
next
  fix page1
  assume a: "fetch 0 = Inr page1 \<and> length (normalize_collection page1) = 100
         \<and> parse_total page1 = Inr (Some 150)"
  then have "fetch_pages fetch 0 None [] [] =
      fetch_pages fetch (0 + length (normalize_collection page1)) (Some 150)
        ([] @ normalize_collection page1) ([] @ [0])"
    using fetch_pages_continue [of fetch 0 page1 None "Some 150" "[]" "[]"] by simp
  then have "fetch_pages fetch 0 None [] [] =
      fetch_pages fetch 100 (Some 150) (normalize_collection page1) [0]"
    using a by simp
  moreover have "\<exists>out. fetch_pages fetch 100 (Some 150) (normalize_collection page1) [0]
      = Some (out, [0] @ [100])"
    by (rule fetch_pages_known_total_second_page) simp
  ultimately show "\<exists>out. fetch_pages fetch 0 None [] [] = Some (out, [0, 100])" by simp
qed

theorem fetch_pages_stops_witness:
  "fetch_pages
     (\<lambda>cursor.
        if cursor = 0
          then Inr (JObj [(ascii ''collection'', JList (replicate 100 (JObj []))),
                          (ascii ''messages'', JList [JObj [(ascii ''total'', JInt 150)]])])
        else if cursor = 100
          then Inr (JObj [(ascii ''collection'', JList (replicate 50 (JObj [])))])
        else Inl RequestError)
     0 None [] []
   = Some (Inr (replicate 100 (JObj []) @ replicate 50 (JObj [])), [0, 100])
   \<and> fetch_pages (\<lambda>cursor. Inr (JObj [])) 0 None [] [] = Some (Inr [], [0])"
proof -
  let ?p1 = "JObj [(ascii ''collection'', JList (replicate 100 (JObj []))),
                   (ascii ''messages'', JList [JObj [(ascii ''total'', JInt 150)]])]"
  let ?p2 = "JObj [(ascii ''collection'', JList (replicate 50 (JObj [])))]"
  let ?fetch = "\<lambda>cursor::nat. if cursor = 0 then Inr ?p1
        else if cursor = 100 then Inr ?p2 else Inl RequestError"
  have n1: "normalize_collection ?p1 = replicate 100 (JObj [])"
    by (simp add: normalize_collection_def)
  have t1: "parse_total ?p1 = Inr (Some 150)"
    by (simp add: parse_total_def dict_get_def ascii_def)
  have n2: "normalize_collection ?p2 = replicate 50 (JObj [])"
    by (simp add: normalize_collection_def)
  have f0: "?fetch 0 = Inr ?p1" and f100: "?fetch 100 = Inr ?p2"
    by simp_all
  have first: "fetch_pages ?fetch 0 None [] []
      = fetch_pages ?fetch 100 (Some 150) (replicate 100 (JObj [])) [0]"
    using fetch_pages_stops [of ?fetch 0 None "[]" "[]"] f0 n1 t1 by simp
  have second: "fetch_pages ?fetch 100 (Some 150) (replicate 100 (JObj [])) [0]
      = Some (Inr (replicate 100 (JObj []) @ replicate 50 (JObj [])), [0, 100])"
    using fetch_pages_stops [of ?fetch 100 "Some 150" "replicate 100 (JObj [])" "[0]"] f100 n2
    by simp
  have none: "fetch_pages (\<lambda>cursor. Inr (JObj [])) 0 None [] [] = Some (Inr [], [0])"
    using fetch_pages_stops [of "\<lambda>cursor. Inr (JObj [])" 0 None "[]" "[]"]
    by (simp add: normalize_collection_def)
  from first second none show ?thesis by simp
qed

section \<open>Order and identifiers of the papers\<close>

lemma sorted_sort_reverse: "sorted (rev (map f (sort_reverse f xs)))"
proof -
  have "sorted (map f (sort_key f (rev xs)))" by (rule sorted_sort_key)
  then show ?thesis by (simp add: sort_reverse_def rev_map)
qed

lemma sort_reverse_stable:
  "filter (\<lambda>x. f x = k) (sort_reverse f xs) = filter (\<lambda>x. f x = k) xs"
proof -
  have "filter (\<lambda>x. f x = k) (sort_key f (rev xs)) = filter (\<lambda>x. f x = k) (rev xs)"
    by (rule sort_key_stable)
  then show ?thesis by (simp add: sort_reverse_def rev_filter [symmetric])
qed

lemma length_sort_reverse: "length (sort_reverse f xs) = length xs"
  by (simp add: sort_reverse_def)

lemma pid_number_papers:
  "map pid (number_papers i rs) = map (\<lambda>j. 80 # fmt_02d j) [i..<i + length rs]"
proof (induction rs arbitrary: i)
  case Nil
  show ?case by simp
next
  case (Cons r rs)
  have "[i..<i + length (r # rs)] = i # [Suc i..<Suc i + length rs]"
    by (subst upt_rec) simp
  with Cons [of "Suc i"] show ?case by (simp add: make_paper_def)
qed

lemma date_number_papers: "map date (number_papers i rs) = map (\<lambda>r. strip (date_key r)) rs"
  by (induction rs arbitrary: i) (simp_all add: make_paper_def text_field_def date_key_def)

lemma length_number_papers: "length (number_papers i rs) = length rs"
  by (induction rs arbitrary: i) simp_all

lemma value_dec: "foldl (\<lambda>a c. 10 * a + (c - 48)) 0 (dec n) = n"
proof (induction n rule: dec.induct)
  case (1 n)
  show ?case
  proof (cases "n < 10")
    case True
    then show ?thesis by (subst dec.simps) simp
  next
    case False
    with 1 have "foldl (\<lambda>a c. 10 * a + (c - 48)) 0 (dec (n div 10)) = n div 10" by simp
    with False show ?thesis by (subst dec.simps) simp
  qed
qed

lemma value_fmt_02d: "foldl (\<lambda>a c. 10 * a + (c - 48)) 0 (fmt_02d n) = n"
  using value_dec [of n] by (simp add: fmt_02d_def)

lemma inj_pid: "inj (\<lambda>j. 80 # fmt_02d j)"
proof (rule injI)
  fix x y :: nat
  assume "80 # fmt_02d x = 80 # fmt_02d y"
  then have "fmt_02d x = fmt_02d y" by simp
  then have "foldl (\<lambda>a c. 10 * a + (c - 48)) 0 (fmt_02d x)
      = foldl (\<lambda>a c. 10 * a + (c - 48)) 0 (fmt_02d y)" by simp
  then show "x = y" by (simp only: value_fmt_02d)
qed

lemma distinct_pids: "distinct (map (\<lambda>j. 80 # fmt_02d j) [i..<k])"
  by (simp add: distinct_map inj_pid [THEN inj_on_subset])

text \<open>
  What the order of the papers is for every list of records. The records are sorted in
  descending order of the date string as the catalog gave it, \<open>str(r.get("date", ""))\<close>,
  and the papers follow the records, each with that string stripped as its date. So the dates
  of the papers are in descending order whenever no date carries white space at its ends.
  The identifiers are \<open>P\<close> and the number of the paper, from 1 on, with at least two
  digits: in that order, without gaps, and distinct.
\<close>

lemma papers_order_general:
  "sorted (rev (map date_key (sort_reverse date_key (dedupe_keep_latest_version rows))))
   \<and> map date (papers_of_rows rows)
       = map (\<lambda>r. strip (date_key r)) (sort_reverse date_key (dedupe_keep_latest_version rows))
   \<and> ((\<forall>r \<in> set rows. strip (date_key r) = date_key r) \<longrightarrow>
        sorted (rev (map date (papers_of_rows rows))))
   \<and> length (papers_of_rows rows) = length (dedupe_keep_latest_version rows)
   \<and> map pid (papers_of_rows rows)
       = map (\<lambda>j. 80 # fmt_02d j) [1..<Suc (length (papers_of_rows rows))]
   \<and> distinct (map pid (papers_of_rows rows))"
proof -
  let ?d = "dedupe_keep_latest_version rows"
  let ?rs = "sort_reverse date_key ?d"
  have s: "sorted (rev (map date_key ?rs))" by (rule sorted_sort_reverse)
  have len: "length ?rs = length ?d" by (rule length_sort_reverse)
  have dates: "map date (papers_of_rows rows) = map (\<lambda>r. strip (date_key r)) ?rs"
    by (simp add: papers_of_rows_def date_number_papers)
  have sub: "set ?rs \<subseteq> set rows"
  proof -
    have "set ?rs = set ?d" by (rule set_sort_reverse)
    moreover have "set ?d \<subseteq> set rows" using dedupe_general [of rows] by simp
    ultimately show ?thesis by simp
  qed
  have clean: "sorted (rev (map date (papers_of_rows rows)))"
    if "\<forall>r \<in> set rows. strip (date_key r) = date_key r"
  proof -
    from that sub have "map (\<lambda>r. strip (date_key r)) ?rs = map date_key ?rs" by auto
    with s dates show ?thesis by simp
  qed
  have l: "length (papers_of_rows rows) = length ?d"
    by (simp add: papers_of_rows_def length_number_papers len)
  have pids: "map pid (papers_of_rows rows)
      = map (\<lambda>j. 80 # fmt_02d j) [1..<Suc (length (papers_of_rows rows))]"
    by (simp add: papers_of_rows_def pid_number_papers length_number_papers)
  have "distinct (map pid (papers_of_rows rows))"
    by (subst pids) (rule distinct_pids)
  with s dates clean l pids show ?thesis by blast
qed

lemma strip_no_space:
  assumes "\<forall>c \<in> set s. \<not> isspace c"
  shows "strip s = s"
proof (rule strip_id)
  show "s = [] \<or> (\<not> isspace (hd s) \<and> \<not> isspace (last s))"
    using assms by (cases "s = []") auto
qed

lemma papers_two_clean_dates:
  "map date (papers_of_rows
      [[(ascii ''doi'', JStr (ascii ''a'')), (ascii ''date'', JStr (ascii ''2024-01-02''))],
       [(ascii ''doi'', JStr (ascii ''b'')), (ascii ''date'', JStr (ascii ''2024-01-03''))]])
     = [ascii ''2024-01-03'', ascii ''2024-01-02'']
   \<and> sorted (rev (map date (papers_of_rows
      [[(ascii ''doi'', JStr (ascii ''a'')), (ascii ''date'', JStr (ascii ''2024-01-02''))],
       [(ascii ''doi'', JStr (ascii ''b'')), (ascii ''date'', JStr (ascii ''2024-01-03''))]])))
   \<and> map pid (papers_of_rows
      [[(ascii ''doi'', JStr (ascii ''a'')), (ascii ''date'', JStr (ascii ''2024-01-02''))],
       [(ascii ''doi'', JStr (ascii ''b'')), (ascii ''date'', JStr (ascii ''2024-01-03''))]])
     = [ascii ''P01'', ascii ''P02'']"
proof -
  let ?r1 = "[(ascii ''doi'', JStr (ascii ''a'')), (ascii ''date'', JStr (ascii ''2024-01-02''))]"
  let ?r2 = "[(ascii ''doi'', JStr (ascii ''b'')), (ascii ''date'', JStr (ascii ''2024-01-03''))]"
  have k1: "doi_key ?r1 = [97]" and k2: "doi_key ?r2 = [98]"
    by (simp_all add: doi_key_def dict_get_def py_str_def ascii_def strip_def lstrip_def rstrip_def
        isspace_def)
  have d1: "date_key ?r1 = [50, 48, 50, 52, 45, 48, 49, 45, 48, 50]"
    and d2: "date_key ?r2 = [50, 48, 50, 52, 45, 48, 49, 45, 48, 51]"
    by (simp_all add: date_key_def dict_get_def py_str_def ascii_def)
  have s1: "strip [50, 48, 50, 52, 45, 48, 49, 45, 48, 50] = [50, 48, 50, 52, 45, 48, 49, 45, 48, 50]"
    and s2: "strip [50, 48, 50, 52, 45, 48, 49, 45, 48, 51] = [50, 48, 50, 52, 45, 48, 49, 45, 48, 51]"
    by (rule strip_no_space, simp add: isspace_def)+
  have dd: "dedupe_keep_latest_version [?r1, ?r2] = [?r1, ?r2]"
    by (simp add: dedupe_keep_latest_version_def dedupe_step_def k1 k2)
  have so: "sort_reverse date_key [?r1, ?r2] = [?r2, ?r1]"
    by (simp add: sort_reverse_def d1 d2)
  have clean: "\<forall>r \<in> set [?r1, ?r2]. strip (date_key r) = date_key r"
    by (simp add: d1 d2 s1 s2)
  note t = papers_order_general [of "[?r1, ?r2]"]
  from t have a: "map date (papers_of_rows [?r1, ?r2])
      = map (\<lambda>r. strip (date_key r)) (sort_reverse date_key (dedupe_keep_latest_version [?r1, ?r2]))"
    and l: "length (papers_of_rows [?r1, ?r2]) = length (dedupe_keep_latest_version [?r1, ?r2])"
    and p: "map pid (papers_of_rows [?r1, ?r2])
      = map (\<lambda>j. 80 # fmt_02d j) [1..<Suc (length (papers_of_rows [?r1, ?r2]))]"
    by blast+
  have "map date (papers_of_rows [?r1, ?r2])
      = [[50, 48, 50, 52, 45, 48, 49, 45, 48, 51], [50, 48, 50, 52, 45, 48, 49, 45, 48, 50]]"
    unfolding a dd so by (simp add: d1 d2 s1 s2)
  then have dates: "map date (papers_of_rows [?r1, ?r2]) = [ascii ''2024-01-03'', ascii ''2024-01-02'']"
    by (simp add: ascii_def)
  from t clean have desc: "sorted (rev (map date (papers_of_rows [?r1, ?r2])))"
    by blast
  have "map pid (papers_of_rows [?r1, ?r2]) = [[80, 48, 49], [80, 48, 50]]"
    unfolding p l dd by (simp add: fmt_02d_def dec.simps upt_rec)
  then have pids: "map pid (papers_of_rows [?r1, ?r2]) = [ascii ''P01'', ascii ''P02'']"
    by (simp add: ascii_def)
  from dates desc pids show ?thesis by blast
qed

text \<open>
  Claim C4. The papers are emitted in descending order of their dates, and the identifiers
  \<open>P01\<close>, \<open>P02\<close>, ... are given in that order, distinct and without gaps. The
  identifiers are as claimed, the order is not: the sort at line 159 compares
  \<open>str(r.get("date", ""))\<close> as it comes, while the date of the paper at line 170 is that
  string stripped. Two records dated \<open>2024-01-02\<close> and \<open>2024-01-03\<close>, the second with
  one leading space as the catalog may send it, come out as \<open>P01\<close> of 2024-01-02 and
  \<open>P02\<close> of 2024-01-03, the older paper first: the space is smaller than every digit.
  Without the space the same two records come out newest first.
\<close>

theorem papers_order_untrimmed_date:
  "map date (papers_of_rows
      [[(ascii ''doi'', JStr (ascii ''a'')), (ascii ''date'', JStr (ascii ''2024-01-02''))],
       [(ascii ''doi'', JStr (ascii ''b'')), (ascii ''date'', JStr (ascii '' 2024-01-03''))]])
     = [ascii ''2024-01-02'', ascii ''2024-01-03'']
   \<and> \<not> sorted (rev (map date (papers_of_rows
      [[(ascii ''doi'', JStr (ascii ''a'')), (ascii ''date'', JStr (ascii ''2024-01-02''))],
       [(ascii ''doi'', JStr (ascii ''b'')), (ascii ''date'', JStr (ascii '' 2024-01-03''))]])))
   \<and> map pid (papers_of_rows
      [[(ascii ''doi'', JStr (ascii ''a'')), (ascii ''date'', JStr (ascii ''2024-01-02''))],
       [(ascii ''doi'', JStr (ascii ''b'')), (ascii ''date'', JStr (ascii '' 2024-01-03''))]])
     = [ascii ''P01'', ascii ''P02'']
   \<and> map doi (papers_of_rows
      [[(ascii ''doi'', JStr (ascii ''a'')), (ascii ''date'', JStr (ascii ''2024-01-02''))],
       [(ascii ''doi'', JStr (ascii ''b'')), (ascii ''date'', JStr (ascii '' 2024-01-03''))]])
     = [ascii ''a'', ascii ''b'']
   \<and> map date (papers_of_rows
      [[(ascii ''doi'', JStr (ascii ''a'')), (ascii ''date'', JStr (ascii ''2024-01-02''))],
       [(ascii ''doi'', JStr (ascii ''b'')), (ascii ''date'', JStr (ascii ''2024-01-03''))]])
     = [ascii ''2024-01-03'', ascii ''2024-01-02'']"
proof -
  let ?r1 = "[(ascii ''doi'', JStr (ascii ''a'')), (ascii ''date'', JStr (ascii ''2024-01-02''))]"
  let ?r2 = "[(ascii ''doi'', JStr (ascii ''b'')), (ascii ''date'', JStr (ascii '' 2024-01-03''))]"
  have k1: "doi_key ?r1 = [97]" and k2: "doi_key ?r2 = [98]"
    by (simp_all add: doi_key_def dict_get_def py_str_def ascii_def strip_def lstrip_def rstrip_def
        isspace_def)
  have d1: "date_key ?r1 = [50, 48, 50, 52, 45, 48, 49, 45, 48, 50]"
    and d2: "date_key ?r2 = [32, 50, 48, 50, 52, 45, 48, 49, 45, 48, 51]"
    by (simp_all add: date_key_def dict_get_def py_str_def ascii_def)
  have s1: "strip [50, 48, 50, 52, 45, 48, 49, 45, 48, 50] = [50, 48, 50, 52, 45, 48, 49, 45, 48, 50]"
    by (rule strip_no_space, simp add: isspace_def)
  have s2: "strip [32, 50, 48, 50, 52, 45, 48, 49, 45, 48, 51] = [50, 48, 50, 52, 45, 48, 49, 45, 48, 51]"
    by (simp add: strip_def lstrip_def rstrip_def isspace_def)
  have dd: "dedupe_keep_latest_version [?r1, ?r2] = [?r1, ?r2]"
    by (simp add: dedupe_keep_latest_version_def dedupe_step_def k1 k2)
  have so: "sort_reverse date_key [?r1, ?r2] = [?r1, ?r2]"
    by (simp add: sort_reverse_def d1 d2)
  have "map date (papers_of_rows [?r1, ?r2])
      = map (\<lambda>r. strip (date_key r)) (sort_reverse date_key (dedupe_keep_latest_version [?r1, ?r2]))"
    unfolding papers_of_rows_def by (rule date_number_papers)
  then have "map date (papers_of_rows [?r1, ?r2])
      = [[50, 48, 50, 52, 45, 48, 49, 45, 48, 50], [50, 48, 50, 52, 45, 48, 49, 45, 48, 51]]"
    unfolding dd so by (simp add: d1 d2 s1 s2)
  then have dates: "map date (papers_of_rows [?r1, ?r2]) = [ascii ''2024-01-02'', ascii ''2024-01-03'']
      \<and> \<not> sorted (rev (map date (papers_of_rows [?r1, ?r2])))"
    by (simp add: ascii_def)
  note t = papers_order_general [of "[?r1, ?r2]"]
  from t have l: "length (papers_of_rows [?r1, ?r2]) = length (dedupe_keep_latest_version [?r1, ?r2])"
    and p: "map pid (papers_of_rows [?r1, ?r2])
      = map (\<lambda>j. 80 # fmt_02d j) [1..<Suc (length (papers_of_rows [?r1, ?r2]))]"
    by blast+
  have "map pid (papers_of_rows [?r1, ?r2]) = [[80, 48, 49], [80, 48, 50]]"
    unfolding p l dd by (simp add: fmt_02d_def dec.simps upt_rec)
  then have pids: "map pid (papers_of_rows [?r1, ?r2]) = [ascii ''P01'', ascii ''P02'']"
    by (simp add: ascii_def)
  have "map doi (papers_of_rows [?r1, ?r2]) = [doi_key ?r1, doi_key ?r2]"
    unfolding papers_of_rows_def dd so
    by (simp add: make_paper_def text_field_def doi_key_def)
  then have dois: "map doi (papers_of_rows [?r1, ?r2]) = [ascii ''a'', ascii ''b'']"
    unfolding k1 k2 by (simp add: ascii_def)
  from dates pids dois papers_two_clean_dates show ?thesis by blast
qed

section \<open>Extracting the JSON object\<close>

lemma ascii_fence: "ascii ''```'' = [96, 96, 96]"
  by (simp add: ascii_def)

lemma ascii_json: "ascii ''json'' = [106, 115, 111, 110]"
  by (simp add: ascii_def)

lemma startswith_iff: "startswith s p \<longleftrightarrow> (\<exists>u. s = p @ u)"
proof
  assume "startswith s p"
  then have "s = p @ drop (length p) s"
    unfolding startswith_def by (metis append_take_drop_id)
  then show "\<exists>u. s = p @ u" ..
next
  assume "\<exists>u. s = p @ u"
  then show "startswith s p" by (auto simp: startswith_def)
qed

lemma endswith_iff: "endswith s p \<longleftrightarrow> (\<exists>u. s = u @ p)"
proof
  assume "endswith s p"
  then have "s = take (length s - length p) s @ p"
    unfolding endswith_def by (metis append_take_drop_id)
  then show "\<exists>u. s = u @ p" ..
next
  assume "\<exists>u. s = u @ p"
  then show "endswith s p" by (auto simp: endswith_def)
qed

lemma not_space_fence: "\<not> isspace 96" "\<not> isspace 123" "\<not> isspace 125" "\<not> isspace 106" "isspace 10"
  by (simp_all add: isspace_def)

lemma rstrip_split: "\<exists>w. s = rstrip s @ w \<and> (\<forall>x \<in> set w. isspace x)"
proof -
  let ?w = "rev (takeWhile isspace (rev s))"
  have "rev (rstrip s @ ?w) = takeWhile isspace (rev s) @ dropWhile isspace (rev s)"
    by (simp only: rev_append rev_rev_ident rstrip_def)
  also have "\<dots> = rev s" by (rule takeWhile_dropWhile_id)
  finally have "s = rstrip s @ ?w" by (simp only: rev_is_rev_conv)
  moreover have "\<forall>x \<in> set ?w. isspace x" by (auto dest: set_takeWhileD)
  ultimately show ?thesis by blast
qed

lemma lstrip_split: "\<exists>w. lstrip s = strip s @ w \<and> (\<forall>x \<in> set w. isspace x)"
  unfolding strip_def by (rule rstrip_split)

lemma strip_last: "strip s = [] \<or> \<not> isspace (last (strip s))"
  using strip_ends [of s] by blast

text \<open>The closing fence after a stripped text and white space is removed, and nothing else.\<close>

lemma sub_fence_close_fenced:
  assumes "c = [] \<or> \<not> isspace (last c)" and "\<forall>x \<in> set w. isspace x"
  shows "sub_fence_close (c @ w @ [96, 96, 96]) = c"
  using assms(1)
proof (induction c)
  case Nil
  have "dropWhile isspace (w @ [96, 96, 96]) = [96, 96, 96]"
    using assms(2) by (simp add: dropWhile_append2 not_space_fence)
  then have "fence_close_at (w @ [96, 96, 96]) = Some []"
    by (simp add: fence_close_at_def ascii_fence)
  then show ?case by (cases "w @ [96, 96, 96]") auto
next
  case (Cons a c)
  then have last: "\<not> isspace (last (a # c))" by simp
  let ?t = "dropWhile isspace ((a # c) @ w @ [96, 96, 96])"
  have "\<not> (\<forall>x \<in> set (a # c). isspace x)" using last last_in_set [of "a # c"] by blast
  then have t: "?t = dropWhile isspace (a # c) @ w @ [96, 96, 96]"
    and ne: "dropWhile isspace (a # c) \<noteq> []"
    by (simp_all only: dropWhile_append dropWhile_eq_Nil_conv if_False not_False_eq_True)
  from ne t have "length ?t > 3" by (cases "dropWhile isspace (a # c)") simp_all
  moreover from t have "last ?t = 96" by simp
  ultimately have "?t \<noteq> [96, 96, 96] \<and> ?t \<noteq> [96, 96, 96, 10]" by auto
  then have none: "fence_close_at ((a # c) @ w @ [96, 96, 96]) = None"
    by (simp add: fence_close_at_def ascii_fence)
  from last have "c = [] \<or> \<not> isspace (last c)" by (cases c) auto
  with Cons.IH have "sub_fence_close (c @ w @ [96, 96, 96]) = c" by simp
  with none show ?case by simp
qed

lemma sub_fence_close_id:
  assumes "c = [] \<or> \<not> isspace (last c)" and "\<not> endswith c [96, 96, 96]"
  shows "sub_fence_close c = c"
  using assms
proof (induction c)
  case Nil
  show ?case by simp
next
  case (Cons a c)
  then have last: "\<not> isspace (last (a # c))" by simp
  let ?t = "dropWhile isspace (a # c)"
  have split: "a # c = takeWhile isspace (a # c) @ ?t" by simp
  have "?t \<noteq> [96, 96, 96]"
  proof
    assume "?t = [96, 96, 96]"
    with split have "\<exists>u. a # c = u @ [96, 96, 96]" by metis
    with Cons.prems(2) show False by (simp add: endswith_iff)
  qed
  moreover have "?t \<noteq> [96, 96, 96, 10]"
  proof
    assume e: "?t = [96, 96, 96, 10]"
    with split obtain u where "a # c = u @ [96, 96, 96, 10]" by metis
    then have "last (a # c) = last (u @ [96, 96, 96, 10])" by (rule arg_cong)
    moreover have "last (u @ [96, 96, 96, 10]) = 10" by simp
    ultimately have "last (a # c) = 10" by (rule trans)
    with last not_space_fence(5) show False by metis
  qed
  ultimately have none: "fence_close_at (a # c) = None"
    by (simp add: fence_close_at_def ascii_fence)
  from last have l: "c = [] \<or> \<not> isspace (last c)" by (cases c) auto
  have "\<not> endswith c [96, 96, 96]"
  proof
    assume "endswith c [96, 96, 96]"
    then obtain u where "c = u @ [96, 96, 96]" by (auto simp: endswith_iff)
    then have "a # c = (a # u) @ [96, 96, 96]" by simp
    then have "endswith (a # c) [96, 96, 96]" unfolding endswith_iff by blast
    with Cons.prems(2) show False by simp
  qed
  with Cons.IH l have "sub_fence_close c = c" by simp
  with none show ?case by simp
qed

text \<open>The text between the fences, whatever it is, comes out stripped.\<close>

lemma cleaned_fenced:
  assumes tag: "tag = [] \<or> tag = ascii ''json''"
    and ws1: "ws1 \<noteq> []" "\<forall>x \<in> set ws1. isspace x"
    and ws2: "\<forall>x \<in> set ws2. isspace x"
  shows "sub_fence_close (sub_fence_open (strip (ascii ''```'' @ tag @ ws1 @ s @ ws2 @ ascii ''```'')))
     = strip s"
proof -
  let ?F = "[96, 96, 96] :: str"
  let ?T = "?F @ tag @ ws1 @ s @ ws2 @ ?F"
  have st: "strip ?T = ?T"
    by (rule strip_id) (simp add: not_space_fence)
  have r: "drop 3 ?T = tag @ ws1 @ s @ ws2 @ ?F" by simp
  have sw: "startswith ?T ?F" by (simp add: startswith_def)
  have after_tag: "(if startswith (tag @ ws1 @ s @ ws2 @ ?F) (ascii ''json'')
       then drop 4 (tag @ ws1 @ s @ ws2 @ ?F) else tag @ ws1 @ s @ ws2 @ ?F)
      = ws1 @ s @ ws2 @ ?F"
  proof (cases "tag = []")
    case True
    from ws1 have "isspace (hd ws1)" by simp
    then have "hd ws1 \<noteq> 106" using not_space_fence by metis
    then have "\<not> startswith (ws1 @ s @ ws2 @ ?F) (ascii ''json'')"
      using ws1(1) by (cases ws1) (auto simp: startswith_def ascii_json)
    with True show ?thesis by simp
  next
    case False
    with tag have "tag = [106, 115, 111, 110]" by (simp add: ascii_json)
    then show ?thesis by (simp add: startswith_def ascii_json)
  qed
  have open1: "sub_fence_open ?T = dropWhile isspace (ws1 @ s @ ws2 @ ?F)"
    using sw by (simp only: sub_fence_open_def ascii_fence if_True Let_def r after_tag)
  have open2: "sub_fence_open ?T = dropWhile isspace (s @ ws2 @ ?F)"
    unfolding open1 using ws1(2) by (simp add: dropWhile_append2)
  show ?thesis
    unfolding ascii_fence
  proof (cases "\<forall>x \<in> set s. isspace x")
    case True
    then have "dropWhile isspace (s @ ws2 @ ?F) = [] @ [] @ ?F"
      using ws2 by (simp add: dropWhile_append2 not_space_fence)
    then have "sub_fence_close (sub_fence_open (strip ?T)) = sub_fence_close ([] @ [] @ ?F)"
      by (simp only: st open2)
    also have "\<dots> = []"
      by (rule sub_fence_close_fenced) simp_all
    also from True have "[] = strip s" by (simp only: strip_all_space)
    finally show "sub_fence_close (sub_fence_open (strip ?T)) = strip s" .
  next
    case False
    then obtain x where "x \<in> set s" and "\<not> isspace x" by blast
    then have "dropWhile isspace (s @ ws2 @ ?F) = lstrip s @ ws2 @ ?F"
      unfolding lstrip_def by (rule dropWhile_append1)
    moreover obtain w where w: "lstrip s = strip s @ w" "\<forall>x \<in> set w. isspace x"
      using lstrip_split by blast
    ultimately have "dropWhile isspace (s @ ws2 @ ?F) = strip s @ (w @ ws2) @ ?F"
      by simp
    then have "sub_fence_close (sub_fence_open (strip ?T))
        = sub_fence_close (strip s @ (w @ ws2) @ ?F)"
      by (simp only: st open2)
    also have "\<dots> = strip s"
      using strip_last [of s] w(2) ws2 by (intro sub_fence_close_fenced) auto
    finally show "sub_fence_close (sub_fence_open (strip ?T)) = strip s" .
  qed
qed

lemma cleaned_unfenced:
  assumes "\<not> startswith (strip s) (ascii ''```'')" and "\<not> endswith (strip s) (ascii ''```'')"
  shows "sub_fence_close (sub_fence_open (strip s)) = strip s"
proof -
  from assms(1) have "sub_fence_open (strip s) = strip s" by (simp add: sub_fence_open_def)
  moreover have "sub_fence_close (strip s) = strip s"
    using strip_last [of s] assms(2) by (intro sub_fence_close_id) (simp_all add: ascii_fence)
  ultimately show ?thesis by simp
qed

lemma set_tl_subset: "set (tl xs) \<subseteq> set xs"
  by (cases xs) auto

lemma search_braces_prefix:
  assumes "123 \<notin> set p"
  shows "search_braces (p @ x) = search_braces x"
proof -
  from assms have "dropWhile (\<lambda>c. c \<noteq> 123) (p @ x) = dropWhile (\<lambda>c. c \<noteq> 123) x"
    by (intro dropWhile_append2) auto
  then show ?thesis by (simp add: search_braces_def)
qed

lemma search_braces_suffix:
  assumes "125 \<notin> set q"
  shows "search_braces (x @ q) = search_braces x"
proof (cases "123 \<in> set x")
  case True
  let ?t = "dropWhile (\<lambda>c. c \<noteq> 123) x"
  from True have t: "dropWhile (\<lambda>c. c \<noteq> 123) (x @ q) = ?t @ q"
    by (intro dropWhile_append1 [of 123]) auto
  from True have ne: "?t \<noteq> []" by (auto simp: dropWhile_eq_Nil_conv)
  then have tl: "tl (?t @ q) = tl ?t @ q" by simp
  have "dropWhile (\<lambda>c. c \<noteq> 125) (rev q @ rev ?t) = dropWhile (\<lambda>c. c \<noteq> 125) (rev ?t)"
    using assms by (intro dropWhile_append2) auto
  then have r: "rev (dropWhile (\<lambda>c. c \<noteq> 125) (rev (?t @ q)))
      = rev (dropWhile (\<lambda>c. c \<noteq> 125) (rev ?t))" by simp
  show ?thesis
    unfolding search_braces_def Let_def t tl r using ne assms by simp
next
  case False
  then have a: "dropWhile (\<lambda>c. c \<noteq> 123) x = []" by (auto simp: dropWhile_eq_Nil_conv)
  from False have "dropWhile (\<lambda>c. c \<noteq> 123) (x @ q) = dropWhile (\<lambda>c. c \<noteq> 123) q"
    by (intro dropWhile_append2) auto
  moreover have "125 \<notin> set (tl (dropWhile (\<lambda>c. c \<noteq> 123) q))"
    using assms set_tl_subset [of "dropWhile (\<lambda>c. c \<noteq> 123) q"] by (auto dest: set_dropWhileD)
  ultimately show ?thesis by (simp add: search_braces_def a)
qed

lemma sub_fence_open_split: "\<exists>p. y = p @ sub_fence_open y \<and> 123 \<notin> set p"
proof (cases "startswith y (ascii ''```'')")
  case False
  then have e: "sub_fence_open y = y" by (simp add: sub_fence_open_def)
  show ?thesis by (rule exI [of _ "[]"]) (simp add: e)
next
  case True
  then obtain r where y: "y = [96, 96, 96] @ r"
    by (auto simp: startswith_iff ascii_fence)
  then have dr: "drop 3 y = r" by simp
  define r' where "r' = (if startswith r (ascii ''json'') then drop 4 r else r)"
  have "\<exists>j. r = j @ r' \<and> 123 \<notin> set j"
  proof (cases "startswith r (ascii ''json'')")
    case True
    then obtain u where u: "r = [106, 115, 111, 110] @ u"
      by (auto simp: startswith_iff ascii_json)
    then have "drop 4 r = u" by simp
    with True have "r' = u" by (simp add: r'_def)
    with u have "r = [106, 115, 111, 110] @ r' \<and> 123 \<notin> set [106, 115, 111, 110 :: nat]"
      by simp
    then show ?thesis by blast
  next
    case False
    then have "r' = r" by (simp add: r'_def)
    then have "r = [] @ r' \<and> 123 \<notin> set ([] :: nat list)" by simp
    then show ?thesis by blast
  qed
  then obtain j where r: "r = j @ r'" and j: "123 \<notin> set j" by blast
  have o: "sub_fence_open y = dropWhile isspace r'"
    using True by (simp only: sub_fence_open_def if_True Let_def dr r'_def)
  have "r' = takeWhile isspace r' @ dropWhile isspace r'" by simp
  with y r o have "y = ([96, 96, 96] @ j @ takeWhile isspace r') @ sub_fence_open y" by simp
  moreover have "123 \<notin> set ([96, 96, 96] @ j @ takeWhile isspace r')"
    using j not_space_fence(2) by (auto dest: set_takeWhileD)
  ultimately show ?thesis by blast
qed

lemma sub_fence_close_split:
  "\<exists>a q r. y = a @ q \<and> sub_fence_close y = a @ r \<and> 125 \<notin> set q \<and> 125 \<notin> set r"
proof (induction y)
  case Nil
  show ?case by simp
next
  case (Cons c cs)
  show ?case
  proof (cases "fence_close_at (c # cs)")
    case None
    from Cons obtain a q r where "cs = a @ q" "sub_fence_close cs = a @ r"
      "125 \<notin> set q" "125 \<notin> set r" by blast
    with None have "c # cs = (c # a) @ q \<and> sub_fence_close (c # cs) = (c # a) @ r
        \<and> 125 \<notin> set q \<and> 125 \<notin> set r" by simp
    then show ?thesis by blast
  next
    case (Some rest)
    let ?t = "dropWhile isspace (c # cs)"
    from Some have t: "?t = [96, 96, 96] \<or> ?t = [96, 96, 96, 10]"
      and rest: "rest = [] \<or> rest = [10]"
      by (auto simp: fence_close_at_def ascii_fence Let_def split: if_splits)
    have "c # cs = takeWhile isspace (c # cs) @ ?t" by simp
    moreover have "125 \<notin> set (takeWhile isspace (c # cs))"
      using not_space_fence(3) by (meson set_takeWhileD)
    moreover from t have "125 \<notin> set ?t" by auto
    ultimately have "125 \<notin> set (c # cs)" by (metis Un_iff set_append)
    moreover from rest have "125 \<notin> set rest" by auto
    moreover from Some have "sub_fence_close (c # cs) = [] @ rest" by simp
    moreover have "c # cs = [] @ (c # cs)" by simp
    ultimately show ?thesis by blast
  qed
qed

lemma search_braces_sub_fence_open: "search_braces (sub_fence_open y) = search_braces y"
proof -
  obtain p where "y = p @ sub_fence_open y" and "123 \<notin> set p"
    using sub_fence_open_split by blast
  then show ?thesis using search_braces_prefix [of p "sub_fence_open y"] by simp
qed

lemma search_braces_sub_fence_close: "search_braces (sub_fence_close y) = search_braces y"
proof -
  obtain a q r where "y = a @ q" "sub_fence_close y = a @ r" "125 \<notin> set q" "125 \<notin> set r"
    using sub_fence_close_split by blast
  then show ?thesis by (simp add: search_braces_suffix)
qed

lemma search_braces_strip: "search_braces (strip y) = search_braces y"
proof -
  obtain w where w: "lstrip y = strip y @ w" "\<forall>x \<in> set w. isspace x"
    using lstrip_split by blast
  then have "125 \<notin> set w" using not_space_fence(3) by blast
  with w(1) have a: "search_braces (strip y) = search_braces (lstrip y)"
    by (simp add: search_braces_suffix)
  have "y = takeWhile isspace y @ lstrip y" by (simp add: lstrip_def)
  moreover have "123 \<notin> set (takeWhile isspace y)"
    using not_space_fence(2) by (meson set_takeWhileD)
  ultimately have "search_braces y = search_braces (lstrip y)"
    by (metis search_braces_prefix)
  with a show ?thesis by simp
qed

lemma search_braces_whole:
  assumes "startswith x [123]" and "endswith x [125]"
  shows "search_braces x = Some x"
proof -
  from assms(1) obtain u where u: "x = 123 # u" by (auto simp: startswith_iff)
  from assms(2) obtain v where v: "x = v @ [125]" by (auto simp: endswith_iff)
  from u v have "u \<noteq> []" by (cases v) auto
  with u v have "last u = 125" by (metis last_ConsR last_snoc)
  with \<open>u \<noteq> []\<close> have "125 \<in> set u" by (metis last_in_set)
  moreover from v have "rev (dropWhile (\<lambda>c. c \<noteq> 125) (rev x)) = x" by simp
  ultimately show ?thesis using u by (simp add: search_braces_def)
qed

lemma extract_json_search:
  "extract_json loads text =
     (case search_braces text of None \<Rightarrow> Inl ValueError | Some m \<Rightarrow> loads m)"
proof -
  let ?c = "sub_fence_close (sub_fence_open (strip text))"
  have s: "search_braces ?c = search_braces text"
    by (simp add: search_braces_sub_fence_close search_braces_sub_fence_open search_braces_strip)
  show ?thesis
  proof (cases "startswith ?c [123] \<and> endswith ?c [125]")
    case True
    then have "search_braces ?c = Some ?c" by (simp add: search_braces_whole)
    with s have "search_braces text = Some ?c" by simp
    with True show ?thesis by (simp add: extract_json_def)
  next
    case False
    then have "extract_json loads text
        = (case search_braces ?c of None \<Rightarrow> Inl ValueError | Some m \<Rightarrow> loads m)"
      by (auto simp: extract_json_def Let_def)
    with s show ?thesis by simp
  qed
qed

lemma search_braces_none:
  assumes "125 \<notin> set (dropWhile (\<lambda>c. c \<noteq> 123) text)"
  shows "search_braces text = None"
  using assms set_tl_subset [of "dropWhile (\<lambda>c. c \<noteq> 123) text"]
  by (auto simp: search_braces_def Let_def)

lemma search_braces_span:
  assumes "123 \<notin> set prose"
  shows "search_braces (prose @ [123] @ body @ [125]) = Some ([123] @ body @ [125])"
proof -
  have "search_braces ([123] @ body @ [125]) = Some ([123] @ body @ [125])"
    by (rule search_braces_whole) (simp_all add: startswith_def endswith_def)
  then show ?thesis using search_braces_prefix [OF assms, of "[123] @ body @ [125]"] by simp
qed

text \<open>
  Claim C5. \<open>extract_json\<close> hands to the parser the span from the first opening brace to the
  last closing brace of the text (\<open>extract_json_search\<close>). So a text between code fences,
  with or without the tag \<open>json\<close>, gives what the text alone gives; prose in front of a
  brace-delimited span does not change what is parsed; a text with no closing brace after its
  first opening brace raises \<open>ValueError\<close> whatever the parser is; and \<open>main\<close> fails with
  the exception of \<open>extract_json\<close>.
\<close>

theorem extract_json_cases:
  "((tag = [] \<or> tag = ascii ''json'') \<and> (\<forall>x \<in> set ws1. isspace x) \<and> (\<forall>x \<in> set ws2. isspace x)
      \<longrightarrow> extract_json loads (ascii ''```'' @ tag @ ws1 @ s @ ws2 @ ascii ''```'')
          = extract_json loads s)
   \<and> (123 \<notin> set prose
      \<longrightarrow> extract_json loads (prose @ [123] @ body @ [125]) = loads ([123] @ body @ [125]))
   \<and> (125 \<notin> set (dropWhile (\<lambda>c. c \<noteq> 123) text)
      \<longrightarrow> extract_json loads text = Inl ValueError)
   \<and> (\<forall>e. extract_json loads text = Inl e \<longrightarrow> main_answer loads text = Inl e)"
proof (intro conjI impI allI)
  assume a: "(tag = [] \<or> tag = ascii ''json'') \<and> (\<forall>x \<in> set ws1. isspace x)
      \<and> (\<forall>x \<in> set ws2. isspace x)"
  then have "123 \<notin> set ([96, 96, 96] @ tag @ ws1)"
    using not_space_fence(2) by (auto simp: ascii_json)
  then have "search_braces (([96, 96, 96] @ tag @ ws1) @ s @ ws2 @ [96, 96, 96])
      = search_braces (s @ ws2 @ [96, 96, 96])"
    by (rule search_braces_prefix)
  moreover from a have "125 \<notin> set (ws2 @ [96, 96, 96])"
    using not_space_fence(3) by auto
  then have "search_braces (s @ ws2 @ [96, 96, 96]) = search_braces s"
    by (rule search_braces_suffix)
  ultimately have "search_braces (ascii ''```'' @ tag @ ws1 @ s @ ws2 @ ascii ''```'')
      = search_braces s"
    by (simp add: ascii_fence)
  then show "extract_json loads (ascii ''```'' @ tag @ ws1 @ s @ ws2 @ ascii ''```'')
      = extract_json loads s"
    by (simp only: extract_json_search)
next
  assume "123 \<notin> set prose"
  then show "extract_json loads (prose @ [123] @ body @ [125]) = loads ([123] @ body @ [125])"
    by (simp add: extract_json_search search_braces_span del: append.simps)
next
  assume "125 \<notin> set (dropWhile (\<lambda>c. c \<noteq> 123) text)"
  then show "extract_json loads text = Inl ValueError"
    by (simp add: extract_json_search search_braces_none)
next
  fix e
  assume "extract_json loads text = Inl e"
  then show "main_answer loads text = Inl e"
    by (simp add: main_answer_def bind_err_def)
qed

theorem extract_json_cases_witness:
  "extract_json (\<lambda>s. if s = [123, 125] then Inr (JObj []) else Inl ValueError)
      (ascii ''```'' @ ascii ''json'' @ [10] @ [123, 125] @ [10] @ ascii ''```'')
     = Inr (JObj [])
   \<and> extract_json (\<lambda>s. if s = [123, 125] then Inr (JObj []) else Inl ValueError)
      (ascii ''Here it is: '' @ [123] @ [] @ [125])
     = Inr (JObj [])
   \<and> extract_json (\<lambda>s. if s = [123, 125] then Inr (JObj []) else Inl ValueError)
      (ascii ''no object here'')
     = Inl ValueError
   \<and> extract_json (\<lambda>s. if s = [123, 125] then Inr (JObj []) else Inl ValueError)
      (ascii ''closed } before { opened'')
     = Inl ValueError
   \<and> main_answer (\<lambda>s. if s = [123, 125] then Inr (JObj []) else Inl ValueError)
      (ascii ''no object here'')
     = Inl ValueError"
proof -
  let ?loads = "\<lambda>s::str. if s = [123, 125] then Inr (JObj []) else Inl ValueError"
  have ws: "\<forall>x \<in> set [10]. isspace x" by (simp add: isspace_def)
  have plain: "extract_json ?loads [123, 125] = Inr (JObj [])"
    using extract_json_cases [of _ _ _ ?loads _ "[]" "[]"] by simp
  have fenced: "extract_json ?loads (ascii ''```'' @ ascii ''json'' @ [10] @ [123, 125] @ [10] @ ascii ''```'')
      = extract_json ?loads [123, 125]"
    using extract_json_cases [of "ascii ''json''" "[10]" "[10]" ?loads "[123, 125]"] ws by blast
  have np: "123 \<notin> set (ascii ''Here it is: '')" by (simp add: ascii_def)
  have prose: "extract_json ?loads (ascii ''Here it is: '' @ [123] @ [] @ [125]) = Inr (JObj [])"
    using extract_json_cases [of _ _ _ ?loads _ "ascii ''Here it is: ''" "[]"] np by simp
  have nb: "125 \<notin> set (dropWhile (\<lambda>c. c \<noteq> 123) (ascii ''no object here''))"
    by (simp add: ascii_def)
  have none: "extract_json ?loads (ascii ''no object here'') = Inl ValueError"
    and abort: "main_answer ?loads (ascii ''no object here'') = Inl ValueError"
    using extract_json_cases [of _ _ _ ?loads _ _ _ "ascii ''no object here''"] nb by blast+
  have nb2: "125 \<notin> set (dropWhile (\<lambda>c. c \<noteq> 123) (ascii ''closed } before { opened''))"
    by (simp add: ascii_def)
  have none2: "extract_json ?loads (ascii ''closed } before { opened'') = Inl ValueError"
    using extract_json_cases [of _ _ _ ?loads _ _ _ "ascii ''closed } before { opened''"] nb2
    by blast
  from plain fenced prose none none2 abort show ?thesis by simp
qed

section \<open>Escaping in the rendered document\<close>

















section \<open>The recipients of the message\<close>

lemma env_other_name:
  "name \<noteq> other \<Longrightarrow> env (environ(other := v)) name dflt required = env environ name dflt required"
  by (simp add: env_def)

lemma send_email_ignores_bcc:
  "send_email (environ(ascii ''EMAIL_BCC'' := v)) subject html_body = send_email environ subject html_body"
proof -
  have "env (environ(ascii ''EMAIL_BCC'' := v)) name dflt required = env environ name dflt required"
    if "name \<in> {ascii ''SMTP_HOST'', ascii ''SMTP_PORT'', ascii ''SMTP_USER'', ascii ''SMTP_PASSWORD'',
        ascii ''EMAIL_TO'', ascii ''EMAIL_FROM''}" for name dflt required
  proof (rule env_other_name)
    from that show "name \<noteq> ascii ''EMAIL_BCC''" by (auto simp: ascii_def)
  qed
  then show ?thesis by (simp add: send_email_def)
qed

lemma send_email_ignores_cc:
  "send_email (environ(ascii ''EMAIL_CC'' := v)) subject html_body = send_email environ subject html_body"
proof -
  have "env (environ(ascii ''EMAIL_CC'' := v)) name dflt required = env environ name dflt required"
    if "name \<in> {ascii ''SMTP_HOST'', ascii ''SMTP_PORT'', ascii ''SMTP_USER'', ascii ''SMTP_PASSWORD'',
        ascii ''EMAIL_TO'', ascii ''EMAIL_FROM''}" for name dflt required
  proof (rule env_other_name)
    from that show "name \<noteq> ascii ''EMAIL_CC''" by (auto simp: ascii_def)
  qed
  then show ?thesis by (simp add: send_email_def)
qed

lemma send_email_envelope:
  assumes "send_email environ subject html_body = Inr m"
  shows "to_addrs m = None \<and> map fst (headers m) = [ascii ''Subject'', ascii ''From'', ascii ''To'']
     \<and> envelope_fields m = [the (environ (ascii ''EMAIL_TO''))]"
proof -
  have names: "ascii ''Subject'' \<noteq> ascii ''To''" "ascii ''Subject'' \<noteq> ascii ''Bcc''"
    "ascii ''Subject'' \<noteq> ascii ''Cc''" "ascii ''From'' \<noteq> ascii ''To''"
    "ascii ''From'' \<noteq> ascii ''Bcc''" "ascii ''From'' \<noteq> ascii ''Cc''"
    by (simp_all add: ascii_def)
  from assms show ?thesis
    by (auto simp: send_email_def bind_err_def env_def Let_def envelope_fields_def names
        split: sum.splits option.splits if_splits)
qed

lemma split_seps_no_sep:
  assumes "\<forall>c \<in> set s. \<not> is_sep c"
  shows "split_seps s = [s]"
proof -
  from assms have "takeWhile (\<lambda>c. \<not> is_sep c) s = s" and "dropWhile (\<lambda>c. \<not> is_sep c) s = []"
    by simp_all
  then show ?thesis by (subst split_seps.simps) simp
qed

lemma parse_recipients_single:
  assumes "raw \<noteq> []" and "\<forall>c \<in> set raw. \<not> is_sep c \<and> \<not> isspace c"
  shows "parse_recipients raw = [raw]"
proof -
  from assms(2) have "split_seps raw = [raw]" by (simp add: split_seps_no_sep)
  moreover from assms(2) have "strip raw = raw" by (simp add: strip_no_space)
  ultimately show ?thesis using assms(1) by (simp add: parse_recipients_def)
qed

lemma py_int_587: "py_int (ascii ''587'') = Some 587"
proof -
  have d: "decimal_value 53 = Some 5" "decimal_value 56 = Some 8" "decimal_value 55 = Some 7"
    by (simp_all add: decimal_value_ascii_digit)
  show ?thesis
    by (simp add: py_int_def ascii_def int_space_def isspace_def digits_ok_def d
        digits_value_def int_max_str_digits_def Let_def)
qed

text \<open>
  Claim C1. With \<open>EMAIL_BCC\<close> set, the message should go to the addresses of \<open>To\<close>,
  \<open>Cc\<close> and \<open>Bcc\<close>, with no \<open>Bcc\<close> header. The first definition of \<open>send_email\<close> does
  that. The second, the one in effect, reads neither \<open>EMAIL_CC\<close> nor \<open>EMAIL_BCC\<close> and
  passes no recipient list to \<open>send_message\<close>: the envelope comes from the \<open>To\<close> header
  alone. With \<open>EMAIL_TO\<close> \<open>a@x.com\<close> and \<open>EMAIL_BCC\<close> \<open>b@y.com\<close> the message goes to
  \<open>a@x.com\<close> only.
\<close>

theorem send_email_drops_bcc:
  "map_sum id envelope_fields
     (send_email
        [ascii ''SMTP_HOST'' \<mapsto> ascii ''mail.x.com'', ascii ''SMTP_USER'' \<mapsto> ascii ''u@x.com'',
         ascii ''SMTP_PASSWORD'' \<mapsto> ascii ''pw'', ascii ''EMAIL_TO'' \<mapsto> ascii ''a@x.com'',
         ascii ''EMAIL_BCC'' \<mapsto> ascii ''b@y.com'']
        subject html_body)
     = Inr [ascii ''a@x.com'']
   \<and> map_sum id envelope_fields
     (send_email_shadowed
        [ascii ''SMTP_HOST'' \<mapsto> ascii ''mail.x.com'', ascii ''SMTP_USER'' \<mapsto> ascii ''u@x.com'',
         ascii ''SMTP_PASSWORD'' \<mapsto> ascii ''pw'', ascii ''EMAIL_TO'' \<mapsto> ascii ''a@x.com'',
         ascii ''EMAIL_BCC'' \<mapsto> ascii ''b@y.com'']
        subject html_body)
     = Inr [ascii ''a@x.com'', ascii ''b@y.com'']
   \<and> map_sum id (\<lambda>m. map fst (headers m))
     (send_email_shadowed
        [ascii ''SMTP_HOST'' \<mapsto> ascii ''mail.x.com'', ascii ''SMTP_USER'' \<mapsto> ascii ''u@x.com'',
         ascii ''SMTP_PASSWORD'' \<mapsto> ascii ''pw'', ascii ''EMAIL_TO'' \<mapsto> ascii ''a@x.com'',
         ascii ''EMAIL_BCC'' \<mapsto> ascii ''b@y.com'']
        subject html_body)
     = Inr [ascii ''Subject'', ascii ''From'', ascii ''To'']
   \<and> (\<forall>environ v. send_email (environ(ascii ''EMAIL_BCC'' := v)) subject html_body
        = send_email environ subject html_body)"
proof -
  let ?env = "[ascii ''SMTP_HOST'' \<mapsto> ascii ''mail.x.com'', ascii ''SMTP_USER'' \<mapsto> ascii ''u@x.com'',
         ascii ''SMTP_PASSWORD'' \<mapsto> ascii ''pw'', ascii ''EMAIL_TO'' \<mapsto> ascii ''a@x.com'',
         ascii ''EMAIL_BCC'' \<mapsto> ascii ''b@y.com'']"
  have host: "env ?env (ascii ''SMTP_HOST'') None True = Inr (ascii ''mail.x.com'')"
    and port: "env ?env (ascii ''SMTP_PORT'') (Some (ascii ''587'')) False = Inr (ascii ''587'')"
    and user: "env ?env (ascii ''SMTP_USER'') None True = Inr (ascii ''u@x.com'')"
    and pw: "env ?env (ascii ''SMTP_PASSWORD'') None True = Inr (ascii ''pw'')"
    and to: "env ?env (ascii ''EMAIL_TO'') None True = Inr (ascii ''a@x.com'')"
    and cc: "env ?env (ascii ''EMAIL_CC'') None False = Inr []"
    and bcc: "env ?env (ascii ''EMAIL_BCC'') None False = Inr (ascii ''b@y.com'')"
    and sender: "env ?env (ascii ''EMAIL_FROM'') (Some (ascii ''u@x.com'')) False = Inr (ascii ''u@x.com'')"
    by (simp_all add: env_def ascii_def)
  have p: "int_or_raise (or_else (ascii ''587'') (ascii ''587'')) = Inr 587"
    by (simp add: int_or_raise_def or_else_def py_int_587)
  have fr: "or_else (ascii ''u@x.com'') (ascii ''u@x.com'') = ascii ''u@x.com''"
    by (simp add: or_else_def)
  have ra: "parse_recipients (ascii ''a@x.com'') = [ascii ''a@x.com'']"
    and rb: "parse_recipients (ascii ''b@y.com'') = [ascii ''b@y.com'']"
    by (rule parse_recipients_single; simp add: ascii_def is_sep_def isspace_def)+
  have ne: "ascii ''b@y.com'' \<noteq> []" by (simp add: ascii_def)
  have names: "ascii ''Subject'' \<noteq> ascii ''To''" "ascii ''Subject'' \<noteq> ascii ''Bcc''"
    "ascii ''Subject'' \<noteq> ascii ''Cc''" "ascii ''From'' \<noteq> ascii ''To''"
    "ascii ''From'' \<noteq> ascii ''Bcc''" "ascii ''From'' \<noteq> ascii ''Cc''"
    by (simp_all add: ascii_def)
  have eff: "map_sum id envelope_fields (send_email ?env subject html_body) = Inr [ascii ''a@x.com'']"
    by (simp add: send_email_def bind_err_def host port user pw to sender p fr
        envelope_fields_def names Let_def)
  have sh: "send_email_shadowed ?env subject html_body =
      Inr \<lparr> smtp_host = ascii ''mail.x.com'', smtp_port = 587, smtp_user = ascii ''u@x.com'',
             smtp_password = ascii ''pw'',
             headers = [(ascii ''Subject'', subject), (ascii ''From'', ascii ''u@x.com''),
                        (ascii ''To'', ascii ''a@x.com'')],
             plain_body = fallback_text, html_alternative = html_body,
             from_addr = Some (ascii ''u@x.com''),
             to_addrs = Some [ascii ''a@x.com'', ascii ''b@y.com''] \<rparr>"
    by (simp add: send_email_shadowed_def bind_err_def host port user pw to cc bcc sender p fr
        ra rb ne Let_def)
  have "map_sum id envelope_fields (send_email_shadowed ?env subject html_body)
      = Inr [ascii ''a@x.com'', ascii ''b@y.com'']"
    by (simp add: sh envelope_fields_def)
  moreover have "map_sum id (\<lambda>m. map fst (headers m)) (send_email_shadowed ?env subject html_body)
      = Inr [ascii ''Subject'', ascii ''From'', ascii ''To'']"
    by (simp add: sh)
  ultimately show ?thesis using eff send_email_ignores_bcc by blast
qed

end
